theory Spec2Isabelle
  imports Main "HOL-Library.Sublist"
begin

section \<open>Python string primitives used by myoracle.py\<close>

text \<open>
  The program is Python 2: its strings are byte strings, modelled as \<open>string\<close>
  (a list of 8-bit characters). The characters that cannot be written inside a
  literal get a name.
\<close>

definition bslash :: char where
  "bslash = CHR 0x5C"

definition squote :: char where
  "squote = CHR 0x27"

definition newline :: char where
  "newline = CHR 0x0A"

text \<open>
  \<open>str.strip\<close>, \<open>str.lstrip\<close> and \<open>str.rstrip\<close> without argument remove the six
  ASCII whitespace characters: space, tab, line feed, vertical tab, form feed and
  carriage return.
\<close>

definition is_space :: "char \<Rightarrow> bool" where
  "is_space c = (c \<in> set [CHR '' '', CHR 0x09, CHR 0x0A, CHR 0x0B, CHR 0x0C, CHR 0x0D])"

definition lstrip :: "string \<Rightarrow> string" where
  "lstrip s = dropWhile is_space s"

definition rstrip :: "string \<Rightarrow> string" where
  "rstrip s = rev (dropWhile is_space (rev s))"

definition strip :: "string \<Rightarrow> string" where
  "strip s = rstrip (lstrip s)"

text \<open>\<open>str.lower\<close> (C locale): the letters A to Z move to a to z, all else stays.\<close>

definition lower_char :: "char \<Rightarrow> char" where
  "lower_char c =
     (case map_of (zip ''ABCDEFGHIJKLMNOPQRSTUVWXYZ'' ''abcdefghijklmnopqrstuvwxyz'') c of
        None \<Rightarrow> c
      | Some l \<Rightarrow> l)"

definition lower :: "string \<Rightarrow> string" where
  "lower s = map lower_char s"

definition startswith :: "string \<Rightarrow> string \<Rightarrow> bool" where
  "startswith s t = prefix t s"

definition endswith :: "string \<Rightarrow> string \<Rightarrow> bool" where
  "endswith s t = prefix (rev t) (rev s)"

text \<open>
  \<open>s.find(t)\<close>: the lowest index at which \<open>t\<close> occurs in \<open>s\<close>, and \<open>-1\<close> when it
  does not occur.
\<close>

fun str_find :: "string \<Rightarrow> string \<Rightarrow> int" where
  "str_find [] t = (if t = [] then 0 else -1)"
| "str_find (c # cs) t =
     (if prefix t (c # cs) then 0
      else (let r = str_find cs t in if r < 0 then -1 else r + 1))"

section \<open>MultilineReadline: the statement buffer\<close>

text \<open>The terminators, as \<open>run_ui_query_loop\<close> passes them to the constructor.\<close>

definition statement_terminators :: "string list" where
  "statement_terminators =
     ['';'', [bslash, CHR ''c''], [bslash, CHR ''C''], [bslash, CHR ''g''], [bslash, CHR ''G'']]"

definition quit_statements :: "string list" where
  "quit_statements = [''quit'', ''quit;'', ''exit'', ''exit;'']"

text \<open>\<open>dump_buffer\<close> empties the buffer.\<close>

definition dump_buffer :: "string \<Rightarrow> string" where
  "dump_buffer statement_buffer = []"

text \<open>
  \<open>clean_buffer\<close>: an all-whitespace buffer becomes empty, any other buffer loses
  its trailing whitespace and gets one space.
\<close>

definition clean_buffer :: "string \<Rightarrow> string" where
  "clean_buffer statement_buffer =
     (let tmp_buffer = strip statement_buffer
      in if tmp_buffer = [] then [] else rstrip statement_buffer @ '' '')"

text \<open>
  \<open>check_for_quit\<close> raises \<open>EOFError\<close> when the lower-cased buffer equals a quit
  command; the model returns \<open>True\<close> where the source raises.
\<close>

definition check_for_quit :: "string \<Rightarrow> bool" where
  "check_for_quit statement_buffer =
     (let lower_statement_buffer = lower statement_buffer
      in list_ex (\<lambda>quit_command. lower_statement_buffer = quit_command) quit_statements)"

text \<open>
  \<open>get_statement_from_buffer\<close>: the loop over the terminators is a left fold over
  \<open>smallest_index\<close>; the function returns the statement (empty when there is none)
  and the new buffer.
\<close>

definition smallest_index_step :: "string \<Rightarrow> int \<Rightarrow> string \<Rightarrow> int" where
  "smallest_index_step statement_buffer smallest_index term =
     (let i = str_find statement_buffer term
      in if i \<ge> 0 \<and> i < smallest_index then i + int (length term) else smallest_index)"

definition get_statement_from_buffer :: "string list \<Rightarrow> string \<Rightarrow> string \<times> string" where
  "get_statement_from_buffer terminators statement_buffer =
     (let smallest_index =
            foldl (smallest_index_step statement_buffer)
              (int (length statement_buffer) + 1) terminators
      in if smallest_index \<le> int (length statement_buffer)
         then (take (nat smallest_index) statement_buffer,
               lstrip (drop (nat smallest_index) statement_buffer))
         else ([], statement_buffer))"


text \<open>
  \<open>get_query\<close>. \<open>raw_input\<close> reads from the list of the lines still to come and
  raises \<open>EOFError\<close> when there is none left. The result names what the call gave
  back, the buffer and the input after it, and, when \<open>raw_input\<close> was called, the
  buffer as it was at that moment.
\<close>

datatype query_result = Statement string | NoStatement | EndOfInput

record query_step =
  returned :: query_result
  buffer_after :: string
  input_after :: "string list"
  line_request :: "string option"

definition get_query :: "string list \<Rightarrow> string \<Rightarrow> string list \<Rightarrow> query_step" where
  "get_query terminators statement_buffer input =
     (let (new_statement, buf1) = get_statement_from_buffer terminators statement_buffer
      in if new_statement \<noteq> []
         then \<lparr>returned = Statement new_statement, buffer_after = buf1,
               input_after = input, line_request = None\<rparr>
         else (case input of
                 [] \<Rightarrow> \<lparr>returned = EndOfInput, buffer_after = buf1,
                         input_after = [], line_request = Some buf1\<rparr>
               | more_input # rest \<Rightarrow>
                   (let buf2 = buf1 @ more_input
                    in if check_for_quit buf2
                       then \<lparr>returned = EndOfInput, buffer_after = buf2,
                             input_after = rest, line_request = Some buf1\<rparr>
                       else (let (new_statement, buf3) =
                                   get_statement_from_buffer terminators buf2
                             in if new_statement \<noteq> []
                                then \<lparr>returned = Statement new_statement, buffer_after = buf3,
                                      input_after = rest, line_request = Some buf1\<rparr>
                                else \<lparr>returned = NoStatement,
                                      buffer_after = clean_buffer buf3,
                                      input_after = rest, line_request = Some buf1\<rparr>))))"

section \<open>SqlQuery: the date macro\<close>

text \<open>
  \<open>datetime.datetime.strptime\<close> compiles the format to a regular expression,
  matches it at the start of the text with backtracking, and raises \<open>ValueError\<close>
  when nothing matches or when text is left over after the first match. A piece of
  the expression is modelled as the list of its possible matches, in the order in
  which the backtracking matcher tries them: each entry is the text matched and
  the rest.
\<close>

type_synonym matcher = "string \<Rightarrow> (string \<times> string) list"

definition is_digit :: "char \<Rightarrow> bool" where
  "is_digit c = (c \<in> set ''0123456789'')"

definition one_of :: "string \<Rightarrow> char \<Rightarrow> bool" where
  "one_of cs c = (c \<in> set cs)"

definition classes :: "(char \<Rightarrow> bool) list \<Rightarrow> matcher" where
  "classes ps s =
     (if length ps \<le> length s \<and> list_all2 (\<lambda>p c. p c) ps (take (length ps) s)
      then [(take (length ps) s, drop (length ps) s)] else [])"

definition alternatives :: "matcher list \<Rightarrow> matcher" where
  "alternatives ms s = concat (map (\<lambda>m. m s) ms)"

text \<open>The directives, as \<open>_strptime.TimeRE\<close> spells them.\<close>

definition re_Y :: matcher where
  "re_Y = classes [is_digit, is_digit, is_digit, is_digit]"

definition re_m :: matcher where
  "re_m = alternatives [classes [one_of ''1'', one_of ''012''],
                        classes [one_of ''0'', one_of ''123456789''],
                        classes [one_of ''123456789'']]"

definition re_d :: matcher where
  "re_d = alternatives [classes [one_of ''3'', one_of ''01''],
                        classes [one_of ''12'', is_digit],
                        classes [one_of ''0'', one_of ''123456789''],
                        classes [one_of ''123456789''],
                        classes [one_of '' '', one_of ''123456789'']]"

definition re_H :: matcher where
  "re_H = alternatives [classes [one_of ''2'', one_of ''0123''],
                        classes [one_of ''01'', is_digit],
                        classes [is_digit]]"

definition re_M :: matcher where
  "re_M = alternatives [classes [one_of ''012345'', is_digit],
                        classes [is_digit]]"

definition re_S :: matcher where
  "re_S = alternatives [classes [one_of ''6'', one_of ''01''],
                        classes [one_of ''012345'', is_digit],
                        classes [is_digit]]"

text \<open>White space in a format becomes \<open>\s+\<close>: greedy, the longest run first.\<close>

definition re_spaces :: matcher where
  "re_spaces s =
     map (\<lambda>k. (take k s, drop k s)) (rev [1..<Suc (length (takeWhile is_space s))])"

text \<open>\<open>int(text)\<close> for a text of digits, possibly after white space.\<close>

definition digit_value :: "char \<Rightarrow> nat" where
  "digit_value c = length (takeWhile (\<lambda>d. d \<noteq> c) ''0123456789'')"

definition int_of_digits :: "string \<Rightarrow> nat" where
  "int_of_digits s = foldl (\<lambda>a c. 10 * a + digit_value c) 0 (strip s)"

record time_tuple =
  year :: nat
  month :: nat
  day :: nat
  hour :: nat
  minute :: nat
  second :: nat

text \<open>The two formats of \<open>time_formats\<close>, each as the list of its matches.\<close>

definition match_datetime_format :: "string \<Rightarrow> (time_tuple \<times> string) list" where
  "match_datetime_format s =
     [(\<lparr>year = int_of_digits y, month = int_of_digits m, day = int_of_digits d,
        hour = int_of_digits h, minute = int_of_digits mi, second = int_of_digits sec\<rparr>, r11).
        (y, r1) \<leftarrow> re_Y s, (x2, r2) \<leftarrow> classes [one_of ''-''] r1,
        (m, r3) \<leftarrow> re_m r2, (x4, r4) \<leftarrow> classes [one_of ''-''] r3,
        (d, r5) \<leftarrow> re_d r4, (x6, r6) \<leftarrow> re_spaces r5,
        (h, r7) \<leftarrow> re_H r6, (x8, r8) \<leftarrow> classes [one_of '':''] r7,
        (mi, r9) \<leftarrow> re_M r8, (x10, r10) \<leftarrow> classes [one_of '':''] r9,
        (sec, r11) \<leftarrow> re_S r10]"

definition match_date_format :: "string \<Rightarrow> (time_tuple \<times> string) list" where
  "match_date_format s =
     [(\<lparr>year = int_of_digits y, month = int_of_digits m, day = int_of_digits d,
        hour = 0, minute = 0, second = 0\<rparr>, r5).
        (y, r1) \<leftarrow> re_Y s, (x2, r2) \<leftarrow> classes [one_of ''-''] r1,
        (m, r3) \<leftarrow> re_m r2, (x4, r4) \<leftarrow> classes [one_of ''-''] r3,
        (d, r5) \<leftarrow> re_d r4]"

definition is_leap :: "nat \<Rightarrow> bool" where
  "is_leap y = (y mod 4 = 0 \<and> (y mod 100 \<noteq> 0 \<or> y mod 400 = 0))"

definition days_in_month :: "nat \<Rightarrow> nat \<Rightarrow> nat" where
  "days_in_month y m =
     (if m = 2 then (if is_leap y then 29 else 28)
      else if m \<in> set [4, 6, 9, 11] then 30 else 31)"

text \<open>
  The \<open>datetime\<close> constructor raises \<open>ValueError\<close> outside these ranges (the
  expression admits the year 0000, a day past the end of the month and the
  seconds 60 and 61).
\<close>

definition valid_datetime :: "time_tuple \<Rightarrow> bool" where
  "valid_datetime t =
     (1 \<le> year t \<and> year t \<le> 9999 \<and> 1 \<le> month t \<and> month t \<le> 12 \<and>
      1 \<le> day t \<and> day t \<le> days_in_month (year t) (month t) \<and>
      hour t \<le> 23 \<and> minute t \<le> 59 \<and> second t \<le> 59)"

definition strptime :: "(string \<Rightarrow> (time_tuple \<times> string) list) \<Rightarrow> string \<Rightarrow> time_tuple option" where
  "strptime format_regex data_string =
     (case format_regex data_string of
        [] \<Rightarrow> None
      | (t, rest) # others \<Rightarrow> if rest \<noteq> [] then None
                             else if valid_datetime t then Some t else None)"

text \<open>Decimal digits of a number, and the zero-padded fields of \<open>strftime\<close>.\<close>

fun str_nat :: "nat \<Rightarrow> string" where
  "str_nat n = (if n < 10 then [''0123456789'' ! n]
                else str_nat (n div 10) @ [''0123456789'' ! (n mod 10)])"

declare str_nat.simps [simp del]

definition zero_pad :: "nat \<Rightarrow> nat \<Rightarrow> string" where
  "zero_pad w n = replicate (w - length (str_nat n)) (CHR ''0'') @ str_nat n"

text \<open>
  \<open>strftime('%Y-%m-%d %H:%M:%S')\<close>; in Python 2 it raises \<open>ValueError\<close> for a
  year before 1900.
\<close>

definition strftime :: "time_tuple \<Rightarrow> string option" where
  "strftime t =
     (if year t < 1900 then None
      else Some (zero_pad 4 (year t) @ ''-'' @ zero_pad 2 (month t) @ ''-'' @
                 zero_pad 2 (day t) @ '' '' @ zero_pad 2 (hour t) @ '':'' @
                 zero_pad 2 (minute t) @ '':'' @ zero_pad 2 (second t)))"

text \<open>
  \<open>get_actual_date\<close>: the first format under which the stripped text parses and
  formats gives the \<open>to_date\<close> call; a \<open>ValueError\<close> moves on to the next format;
  the empty string when none is left.
\<close>

definition to_date_call :: "string \<Rightarrow> string" where
  "to_date_call formatted =
     ''to_date('' @ [squote] @ formatted @ [squote] @ '', '' @ [squote] @
     ''YYYY-MM-DD HH24:MI:SS'' @ [squote] @ '')''"

fun get_actual_date_loop ::
  "(string \<Rightarrow> (time_tuple \<times> string) list) list \<Rightarrow> string \<Rightarrow> string" where
  "get_actual_date_loop [] date_str = []"
| "get_actual_date_loop (t_fmt # time_formats) date_str =
     (case Option.bind (strptime t_fmt (strip date_str)) strftime of
        Some formatted \<Rightarrow> to_date_call formatted
      | None \<Rightarrow> get_actual_date_loop time_formats date_str)"

definition get_actual_date :: "string \<Rightarrow> string" where
  "get_actual_date date_str =
     get_actual_date_loop [match_datetime_format, match_date_format] date_str"

text \<open>
  The pattern \<open>#date\('(.*?)'\)\<close>. After the opening, the lazy group takes the
  fewest characters (none of them a line feed) that the closing quote and bracket
  can follow; \<open>lazy_group\<close> gives the length of the group.
\<close>

definition macro_open :: string where
  "macro_open = ''#date('' @ [squote]"

definition macro_close :: string where
  "macro_close = [squote] @ '')''"

fun lazy_group :: "string \<Rightarrow> nat option" where
  "lazy_group [] = None"
| "lazy_group (c # cs) =
     (if prefix macro_close (c # cs) then Some 0
      else if c = newline then None
      else map_option Suc (lazy_group cs))"

definition match_here :: "string \<Rightarrow> nat option" where
  "match_here s =
     (if prefix macro_open s then lazy_group (drop (length macro_open) s) else None)"

text \<open>
  \<open>date_macro_re.search\<close>: the leftmost position with a match; the result is the
  span (start and end) and the group.
\<close>

fun date_macro_search :: "string \<Rightarrow> (nat \<times> nat \<times> string) option" where
  "date_macro_search [] = None"
| "date_macro_search (c # cs) =
     (case match_here (c # cs) of
        Some k \<Rightarrow> Some (0, length macro_open + k + length macro_close,
                         take k (drop (length macro_open) (c # cs)))
      | None \<Rightarrow> map_option (\<lambda>(match_start, match_end, g). (Suc match_start, Suc match_end, g))
                  (date_macro_search cs))"


section \<open>The macro loop stops\<close>

text \<open>
  The number of places of a text at which the macro pattern matches. Each pass of
  the loop in \<open>date_macro_substitution\<close> that does not return makes it smaller,
  which is why the loop can be written as a recursive function.
\<close>

fun count_matches :: "string \<Rightarrow> nat" where
  "count_matches [] = 0"
| "count_matches (c # cs) = (if match_here (c # cs) \<noteq> None then 1 else 0) + count_matches cs"

lemma lazy_group_Some:
  "lazy_group s = Some k \<Longrightarrow>
     s = take k s @ macro_close @ drop (k + length macro_close) s \<and> k + length macro_close \<le> length s \<and>
     newline \<notin> set (take k s)"
proof (induction s arbitrary: k)
  case Nil
  then show ?case by simp
next
  case (Cons c cs)
  show ?case
  proof (cases "prefix macro_close (c # cs)")
    case True
    with Cons.prems have "k = 0" by simp
    with True prefix_length_le [OF True] show ?thesis by (auto simp: prefix_def)
  next
    case False
    with Cons.prems obtain j where j: "c \<noteq> newline" "lazy_group cs = Some j" "k = Suc j"
      by (auto split: if_splits)
    from Cons.IH [OF j(2)] j(1,3) show ?thesis by simp
  qed
qed

lemma lazy_group_finds: "newline \<notin> set u \<Longrightarrow> lazy_group (u @ macro_close @ post) \<noteq> None"
  by (induction u) (auto simp: macro_close_def)

lemma lazy_group_replace_tail:
  assumes "lazy_group (y @ r) = None" "lazy_group r \<noteq> None"
    and "r' \<noteq> []" "hd r' \<noteq> CHR '')''" "r \<noteq> []" "hd r \<noteq> CHR '')''"
  shows "lazy_group (y @ r') = None"
  using assms(1)
proof (induction y)
  case Nil
  with assms(2) show ?case by simp
next
  case (Cons c y)
  have np: "\<not> prefix macro_close (c # y @ r)" using Cons.prems by (auto split: if_splits)
  have np': "\<not> prefix macro_close (c # y @ r')"
  proof (cases y)
    case Nil
    with assms(3,4) show ?thesis by (cases r') (auto simp: macro_close_def)
  next
    case (Cons a list)
    with np show ?thesis by (auto simp: macro_close_def)
  qed
  show ?case
  proof (cases "c = newline")
    case True
    with np' show ?thesis by simp
  next
    case False
    with Cons.prems np have "lazy_group (y @ r) = None" by simp
    then have "lazy_group (y @ r') = None" by (rule Cons.IH)
    with np' False show ?thesis by simp
  qed
qed


lemma match_here_Some:
  assumes "match_here s = Some k"
  shows "s = macro_open @ take k (drop (length macro_open) s) @ macro_close @
             drop (length macro_open + k + length macro_close) s"
    and "length macro_open + k + length macro_close \<le> length s"
    and "newline \<notin> set (take k (drop (length macro_open) s))"
proof -
  from assms have p: "prefix macro_open s" and l: "lazy_group (drop (length macro_open) s) = Some k"
    by (auto simp: match_here_def split: if_splits)
  from p have s: "s = macro_open @ drop (length macro_open) s"
    by (auto simp: prefix_def)
  note lg = lazy_group_Some [OF l]
  from lg have "drop (length macro_open) s =
      take k (drop (length macro_open) s) @ macro_close @
        drop (length macro_open + k + length macro_close) s"
    by (simp add: add.commute add.left_commute)
  with s show "s = macro_open @ take k (drop (length macro_open) s) @ macro_close @
             drop (length macro_open + k + length macro_close) s" by metis
  from lg have "k + length macro_close \<le> length s - length macro_open" by simp
  with prefix_length_le [OF p] show "length macro_open + k + length macro_close \<le> length s"
    by arith
  from lg show "newline \<notin> set (take k (drop (length macro_open) s))" by simp
qed

lemma date_macro_search_Some:
  "date_macro_search s = Some (st, en, g) \<Longrightarrow>
     s = take st s @ macro_open @ g @ macro_close @ drop en s \<and>
     en = st + length macro_open + length g + length macro_close \<and> en \<le> length s \<and>
     newline \<notin> set g \<and> (\<forall>p<st. match_here (drop p s) = None)"
proof (induction s arbitrary: st en)
  case Nil
  then show ?case by simp
next
  case (Cons c cs)
  show ?case
  proof (cases "match_here (c # cs)")
    case (Some k)
    with Cons.prems have eq: "st = 0" "en = length macro_open + k + length macro_close"
      "g = take k (drop (length macro_open) (c # cs))" by auto
    note mh = match_here_Some [OF Some]
    have "length g = k" using mh(2) eq(3) by simp
    with mh eq show ?thesis by simp
  next
    case None
    with Cons.prems obtain st' en' where r: "date_macro_search cs = Some (st', en', g)"
      "st = Suc st'" "en = Suc en'" by auto
    from Cons.IH [OF r(1)] have IH: "cs = take st' cs @ macro_open @ g @ macro_close @ drop en' cs"
      "en' = st' + length macro_open + length g + length macro_close" "en' \<le> length cs"
      "newline \<notin> set g" "\<forall>p<st'. match_here (drop p cs) = None" by auto
    have "\<forall>p<st. match_here (drop p (c # cs)) = None"
    proof (intro allI impI)
      fix p assume "p < st"
      then show "match_here (drop p (c # cs)) = None"
        using None IH(5) r(2) by (cases p) auto
    qed
    with IH r(2,3) show ?thesis by simp
  qed
qed

lemma date_macro_search_None:
  "date_macro_search s = None \<Longrightarrow> match_here (drop p s) = None"
proof (induction s arbitrary: p)
  case Nil
  then show ?case by (simp add: match_here_def macro_open_def)
next
  case (Cons c cs)
  then show ?case by (cases p) (auto split: option.splits)
qed

lemma count_matches_none:
  "(\<forall>p<length a. match_here (drop p (a @ b)) = None) \<Longrightarrow> count_matches (a @ b) = count_matches b"
proof (induction a)
  case Nil
  then show ?case by simp
next
  case (Cons c a)
  from Cons.prems have "match_here (c # a @ b) = None" by force
  moreover have "\<forall>p<length a. match_here (drop p (a @ b)) = None"
  proof (intro allI impI)
    fix p assume "p < length a"
    with Cons.prems have "match_here (drop (Suc p) ((c # a) @ b)) = None" by (metis Suc_less_eq length_Cons)
    then show "match_here (drop p (a @ b)) = None" by simp
  qed
  ultimately show ?case using Cons.IH by simp
qed

lemma count_matches_append_ge: "count_matches b \<le> count_matches (a @ b)"
  by (induction a) auto


lemma match_here_no_hash: "s = [] \<or> hd s \<noteq> CHR ''#'' \<Longrightarrow> match_here s = None"
  by (cases s) (auto simp: match_here_def macro_open_def)

lemma match_here_replace:
  assumes x: "x \<noteq> []"
    and none: "match_here (x @ macro_open @ g @ macro_close @ post) = None"
    and g: "newline \<notin> set g"
    and d: "prefix ''to'' d"
  shows "match_here (x @ d @ post) = None"
proof (cases "prefix macro_open (x @ d @ post)")
  case False
  then show ?thesis by (simp add: match_here_def)
next
  case True
  from d obtain d' where d': "d = ''to'' @ d'" by (auto simp: prefix_def)
  from True have "prefix macro_open x \<or> (\<exists>us. macro_open = x @ us \<and> prefix us (d @ post))"
    by (simp add: prefix_append)
  then have "prefix macro_open x"
  proof
    assume "\<exists>us. macro_open = x @ us \<and> prefix us (d @ post)"
    then obtain us where us: "macro_open = x @ us" "prefix us (''to'' @ d' @ post)"
      using d' by auto
    have usd: "us = drop (length x) macro_open" using us(1) by (metis append_eq_conv_conj)
    have "length x + length us = 7" using arg_cong [OF us(1), of length]
      by (simp add: macro_open_def)
    moreover have "1 \<le> length x" using x by (cases x) auto
    ultimately have "length x = 1 \<or> length x = 2 \<or> length x = 3 \<or> length x = 4 \<or>
      length x = 5 \<or> length x = 6 \<or> length x = 7" by arith
    then have "us = [] \<or> hd us \<noteq> CHR ''t'' \<or> (length us \<ge> 2 \<and> us ! 1 \<noteq> CHR ''o'')"
      unfolding usd by (auto simp: macro_open_def squote_def)
    moreover from us(2) have "us = [] \<or> hd us = CHR ''t'' \<and> (length us \<ge> 2 \<longrightarrow> us ! 1 = CHR ''o'')"
      by (cases us; cases "tl us") (auto simp: prefix_Cons)
    ultimately have "us = []" by auto
    with us(1) show ?thesis by simp
  qed
  then obtain y where y: "x = macro_open @ y" by (auto simp: prefix_def)
  from none y have "lazy_group (y @ macro_open @ g @ macro_close @ post) = None"
    by (simp add: match_here_def)
  moreover have "lazy_group (macro_open @ g @ macro_close @ post) \<noteq> None"
    using lazy_group_finds [of "macro_open @ g" post] g
    by (simp add: macro_open_def newline_def squote_def)
  ultimately have "lazy_group (y @ d @ post) = None"
    by (rule lazy_group_replace_tail [where r = "macro_open @ g @ macro_close @ post"])
       (simp_all add: macro_open_def d')
  with y show ?thesis by (simp add: match_here_def)
qed

lemma str_nat_digits: "set (str_nat n) \<subseteq> set ''0123456789''"
proof (induction n rule: str_nat.induct)
  case (1 n)
  have d: "\<And>k. k < 10 \<Longrightarrow> ''0123456789'' ! k \<in> set ''0123456789''"
    by (rule nth_mem) simp
  show ?case
  proof (cases "n < 10")
    case True
    with d [of n] show ?thesis by (subst str_nat.simps) simp
  next
    case False
    with "1.IH" d [of "n mod 10"] show ?thesis by (subst str_nat.simps) simp
  qed
qed

lemma zero_pad_digits: "set (zero_pad w n) \<subseteq> set ''0123456789''"
  using str_nat_digits [of n] by (auto simp: zero_pad_def)

lemma strftime_chars: "strftime t = Some str \<Longrightarrow> set str \<subseteq> set ''0123456789-: ''"
  using zero_pad_digits [of 4 "year t"] zero_pad_digits [of 2 "month t"]
    zero_pad_digits [of 2 "day t"] zero_pad_digits [of 2 "hour t"]
    zero_pad_digits [of 2 "minute t"] zero_pad_digits [of 2 "second t"]
  by (auto simp: strftime_def split: if_splits)

lemma get_actual_date_loop_shape:
  "get_actual_date_loop fs g \<noteq> [] \<Longrightarrow>
     \<exists>str. get_actual_date_loop fs g = to_date_call str \<and> set str \<subseteq> set ''0123456789-: ''"
proof (induction fs)
  case Nil
  then show ?case by simp
next
  case (Cons f fs)
  show ?case
  proof (cases "Option.bind (strptime f (strip g)) strftime")
    case None
    with Cons show ?thesis by simp
  next
    case (Some str)
    then obtain t where "strftime t = Some str" by (auto simp: bind_eq_Some_conv)
    then have "set str \<subseteq> set ''0123456789-: ''" by (rule strftime_chars)
    with Some show ?thesis by auto
  qed
qed

lemma get_actual_date_shape:
  assumes "get_actual_date g \<noteq> []"
  shows "prefix ''to'' (get_actual_date g)" and "CHR ''#'' \<notin> set (get_actual_date g)"
proof -
  from assms obtain str where t: "get_actual_date g = to_date_call str"
    "set str \<subseteq> set ''0123456789-: ''"
    using get_actual_date_loop_shape unfolding get_actual_date_def by blast
  show "prefix ''to'' (get_actual_date g)" by (simp add: t(1) to_date_call_def)
  show "CHR ''#'' \<notin> set (get_actual_date g)" using t(2)
    by (auto simp: t(1) to_date_call_def squote_def)
qed

lemma count_matches_decreases:
  assumes s: "date_macro_search s = Some (st, en, g)" and d: "get_actual_date g \<noteq> []"
  shows "count_matches (take st s @ get_actual_date g @ drop en s) < count_matches s"
proof -
  let ?pre = "take st s" and ?post = "drop en s" and ?d = "get_actual_date g"
  note dec = date_macro_search_Some [OF s]
  from dec have eq: "s = ?pre @ macro_open @ g @ macro_close @ ?post" by blast
  from dec have len: "length ?pre = st" by simp
  from dec have nl: "newline \<notin> set g" by simp
  have before: "\<forall>p<length ?pre. match_here (drop p ?pre @ macro_open @ g @ macro_close @ ?post) = None"
  proof (intro allI impI)
    fix p assume p: "p < length ?pre"
    with dec len have "match_here (drop p s) = None" by simp
    moreover have "drop p s = drop p ?pre @ macro_open @ g @ macro_close @ ?post"
      using p by (subst eq) simp
    ultimately show "match_here (drop p ?pre @ macro_open @ g @ macro_close @ ?post) = None"
      by simp
  qed
  have "count_matches s = count_matches (?pre @ macro_open @ g @ macro_close @ ?post)"
    using eq by simp
  also have "\<dots> = count_matches (macro_open @ g @ macro_close @ ?post)"
    using before by (intro count_matches_none) simp
  finally have old: "count_matches s = count_matches (macro_open @ g @ macro_close @ ?post)" .
  have "match_here (macro_open @ g @ macro_close @ ?post) \<noteq> None"
    using lazy_group_finds [OF nl] by (simp add: match_here_def)
  then have "count_matches (macro_open @ g @ macro_close @ ?post) =
      Suc (count_matches (tl macro_open @ g @ macro_close @ ?post))"
    by (simp add: macro_open_def)
  moreover have "count_matches ?post \<le> count_matches ((tl macro_open @ g @ macro_close) @ ?post)"
    by (rule count_matches_append_ge)
  ultimately have old_ge: "count_matches ?post < count_matches s" using old by simp
  have "\<forall>p<length ?pre. match_here (drop p (?pre @ ?d @ ?post)) = None"
  proof (intro allI impI)
    fix p assume p: "p < length ?pre"
    then have "drop p ?pre \<noteq> []" by auto
    moreover from before p
    have "match_here (drop p ?pre @ macro_open @ g @ macro_close @ ?post) = None" by blast
    ultimately have "match_here (drop p ?pre @ ?d @ ?post) = None"
      using nl get_actual_date_shape(1) [OF d] by (rule match_here_replace)
    with p show "match_here (drop p (?pre @ ?d @ ?post)) = None" by simp
  qed
  then have "count_matches (?pre @ ?d @ ?post) = count_matches (?d @ ?post)"
    by (rule count_matches_none)
  also have "\<dots> = count_matches ?post"
  proof (rule count_matches_none, intro allI impI)
    fix p assume p: "p < length ?d"
    then have "hd (drop p (?d @ ?post)) \<in> set ?d"
      by (simp add: hd_drop_conv_nth nth_append)
    with get_actual_date_shape(2) [OF d] have "hd (drop p (?d @ ?post)) \<noteq> CHR ''#''" by metis
    then show "match_here (drop p (?d @ ?post)) = None" by (simp add: match_here_no_hash)
  qed
  finally show ?thesis using old_ge by simp
qed

section \<open>SqlQuery\<close>

datatype view_type = HORIZONTAL_TABLE | HORIZONTAL_TABS | VERTICAL

text \<open>Of the command line options, \<open>SqlQuery\<close> reads \<open>execute_query\<close> only.\<close>

record cmd_line_options =
  execute_query :: string

record SqlQuery =
  query_statement :: string
  cmd_line_options :: cmd_line_options
  view_type :: view_type
  cancelled :: bool
  illegal_query :: bool
  bad_macro :: bool
  bad_macro_string :: string

definition illegal_query_words :: "string list" where
  "illegal_query_words =
     [''alter'', ''checkpoint'', ''comment'', ''commit'', ''constraint'', ''create'',
      ''delete'', ''drop'', ''insert'', ''merge'', ''savepoint'', ''set'', ''truncate'',
      ''update'']"

definition is_illegal_query :: "SqlQuery \<Rightarrow> bool" where
  "is_illegal_query q =
     (let lower_query = lower (strip (query_statement q))
      in list_ex (\<lambda>word. startswith lower_query word) illegal_query_words)"

text \<open>
  \<open>date_macro_substitution\<close>: the \<open>while macro_match\<close> loop, one pass for each
  call. A literal that does not parse sets \<open>bad_macro\<close> and returns at once, with
  the statement as the passes before have left it.
\<close>

function date_macro_substitution :: "SqlQuery \<Rightarrow> SqlQuery" where
  "date_macro_substitution q =
     (case date_macro_search (query_statement q) of
        None \<Rightarrow> q
      | Some (match_start, match_end, the_date_str) \<Rightarrow>
          (let actual_date = get_actual_date the_date_str
           in if actual_date = []
              then q\<lparr>bad_macro := True, bad_macro_string := the_date_str\<rparr>
              else date_macro_substitution
                     (q\<lparr>query_statement :=
                          take match_start (query_statement q) @ actual_date @
                          drop match_end (query_statement q)\<rparr>)))"
  by pat_completeness auto
termination
  by (relation "measure (\<lambda>q. count_matches (query_statement q))")
     (auto simp: count_matches_decreases)

declare date_macro_substitution.simps [simp del]

definition do_macro_substitution :: "SqlQuery \<Rightarrow> SqlQuery" where
  "do_macro_substitution q = date_macro_substitution q"

definition parse_query :: "SqlQuery \<Rightarrow> SqlQuery" where
  "parse_query q =
     (if endswith (query_statement q) [bslash, CHR ''c''] \<or>
         endswith (query_statement q) [bslash, CHR ''C'']
      then q\<lparr>cancelled := True\<rparr>
      else
        (let q1 = (if is_illegal_query q then q\<lparr>illegal_query := True\<rparr> else q);
             q2 = do_macro_substitution q1
         in if execute_query (cmd_line_options q2) \<noteq> []
            then (let q3 = q2\<lparr>view_type := HORIZONTAL_TABS\<rparr>
                  in if endswith (query_statement q3) '';''
                     then q3\<lparr>query_statement := butlast (query_statement q3)\<rparr>
                     else q3)
            else if endswith (query_statement q2) [bslash, CHR ''g''] \<or>
                    endswith (query_statement q2) [bslash, CHR ''G'']
            then q2\<lparr>query_statement :=
                      take (length (query_statement q2) - 2) (query_statement q2),
                    view_type := VERTICAL\<rparr>
            else if endswith (query_statement q2) '';''
            then q2\<lparr>query_statement := butlast (query_statement q2),
                    view_type := HORIZONTAL_TABLE\<rparr>
            else q2))"

text \<open>The constructor: the fields at their defaults, then \<open>parse_query\<close>.\<close>

definition SqlQuery_defaults :: "string \<Rightarrow> cmd_line_options \<Rightarrow> SqlQuery" where
  "SqlQuery_defaults statement options =
     \<lparr>query_statement = statement, cmd_line_options = options,
      view_type = HORIZONTAL_TABLE, cancelled = False, illegal_query = False,
      bad_macro = False, bad_macro_string = []\<rparr>"

definition SqlQuery_init :: "string \<Rightarrow> cmd_line_options \<Rightarrow> SqlQuery" where
  "SqlQuery_init statement options = parse_query (SqlQuery_defaults statement options)"

text \<open>
  The branch that the \<open>if\<close>/\<open>elif\<close> chain of \<open>handle_single_query\<close> takes.
\<close>

datatype handling = Skip_cancelled | Report_illegal | Report_bad_macro | Run_query

definition handle_single_query_branch :: "SqlQuery \<Rightarrow> handling" where
  "handle_single_query_branch query_object =
     (if cancelled query_object then Skip_cancelled
      else if illegal_query query_object then Report_illegal
      else if bad_macro query_object then Report_bad_macro
      else Run_query)"

section \<open>View: the bordered table\<close>

text \<open>
  A cell of a result row, by what the renderer asks of it: whether it is \<open>None\<close>,
  whether its type is \<open>str\<close>, and what \<open>str()\<close> makes of it. A value of any
  other type (a number, a \<open>datetime\<close>) is \<open>OtherCell\<close> with its \<open>str()\<close> text;
  \<open>NullTypeCell\<close> is an object of the class \<open>NullType\<close>.
\<close>

datatype cell = NoneCell | StrCell string | OtherCell string | NullTypeCell string

datatype py_error = IndexError | TypeError

definition null_display :: string where
  "null_display = ''NULL''"

fun str_cell :: "cell \<Rightarrow> string" where
  "str_cell NoneCell = ''None''"
| "str_cell (StrCell s) = s"
| "str_cell (OtherCell s) = s"
| "str_cell (NullTypeCell null_string) = null_string"

fun is_str :: "cell \<Rightarrow> bool" where
  "is_str (StrCell s) = True"
| "is_str c = False"

definition translate_none_to_null :: "cell list list \<Rightarrow> cell list list" where
  "translate_none_to_null results =
     map (map (\<lambda>col. if col = NoneCell then NullTypeCell null_display else col)) results"

text \<open>\<open>View.get_result_set_summary\<close>; the row count is never negative.\<close>

definition get_result_set_summary :: "nat \<Rightarrow> string" where
  "get_result_set_summary num_rows =
     (if num_rows > 0 then str_nat num_rows @ '' rows in set'' @ [newline, newline]
      else ''Empty set'' @ [newline, newline])"

text \<open>\<open>sep.join(parts)\<close>.\<close>

fun join :: "string \<Rightarrow> string list \<Rightarrow> string" where
  "join sep [] = []"
| "join sep [x] = x"
| "join sep (x # y # ys) = x @ sep @ join sep (y # ys)"

text \<open>The attributes that \<open>HorizontalTableView.__init__\<close> sets.\<close>

definition header_footer_separator :: string where
  "header_footer_separator = ''+''"

definition separator :: string where
  "separator = ''|''"

definition want_header :: bool where
  "want_header = True"

text \<open>
  \<open>HorizontalTableView.get_left_justification\<close>. The test reads
  \<open>left_justify[i]\<close> only for a cell that is not \<open>None\<close>, and raises \<open>IndexError\<close>
  when the row is longer than the first row.
\<close>

fun left_justify_row :: "nat \<Rightarrow> cell list \<Rightarrow> bool list \<Rightarrow> py_error + bool list" where
  "left_justify_row i [] left_justify = Inr left_justify"
| "left_justify_row i (col # row) left_justify =
     (if col \<noteq> NoneCell
      then (if i < length left_justify
            then left_justify_row (Suc i) row
                   (if \<not> left_justify ! i \<and> is_str col then left_justify[i := True]
                    else left_justify)
            else Inl IndexError)
      else left_justify_row (Suc i) row left_justify)"

fun left_justify_rows :: "cell list list \<Rightarrow> bool list \<Rightarrow> py_error + bool list" where
  "left_justify_rows [] left_justify = Inr left_justify"
| "left_justify_rows (row # results) left_justify =
     (case left_justify_row 0 row left_justify of
        Inl e \<Rightarrow> Inl e
      | Inr left_justify' \<Rightarrow> left_justify_rows results left_justify')"

definition get_left_justification :: "cell list list \<Rightarrow> py_error + bool list" where
  "get_left_justification results =
     (case results of
        [] \<Rightarrow> Inl IndexError
      | first # others \<Rightarrow> left_justify_rows results (replicate (length first) False))"

text \<open>\<open>HorizontalTableView.get_col_width\<close>.\<close>

fun col_width_row :: "nat \<Rightarrow> string list \<Rightarrow> nat list \<Rightarrow> py_error + nat list" where
  "col_width_row j [] col_width = Inr col_width"
| "col_width_row j (col # row) col_width =
     (if j < length col_width
      then col_width_row (Suc j) row
             (if length col > col_width ! j then col_width[j := length col] else col_width)
      else Inl IndexError)"

fun col_width_rows :: "string list list \<Rightarrow> nat list \<Rightarrow> py_error + nat list" where
  "col_width_rows [] col_width = Inr col_width"
| "col_width_rows (row # string_results) col_width =
     (case col_width_row 0 row col_width of
        Inl e \<Rightarrow> Inl e
      | Inr col_width' \<Rightarrow> col_width_rows string_results col_width')"

definition get_col_width :: "string list list \<Rightarrow> py_error + nat list" where
  "get_col_width string_results =
     (case string_results of
        [] \<Rightarrow> Inl IndexError
      | first # others \<Rightarrow> col_width_rows string_results (replicate (length first) 0))"

text \<open>
  \<open>create_format_string\<close> writes one conversion \<open>%-0Ns\<close> or \<open>%0Ns\<close> for each
  pair of \<open>zip(col_width, left_justification)\<close>, with a space on either side,
  between separators. The format string is kept as the list of these pairs. The
  \<open>%\<close> operator raises \<open>TypeError\<close> unless the row has one value for each
  conversion; \<open>%s\<close> pads with spaces to the width (the flag \<open>0\<close> has no effect on
  a string), on the right under the flag \<open>-\<close> and on the left otherwise.
\<close>

type_synonym format_string = "(nat \<times> bool) list"

definition create_format_string :: "nat list \<Rightarrow> bool list \<Rightarrow> format_string" where
  "create_format_string col_width left_justification = zip col_width left_justification"

definition justify :: "nat \<Rightarrow> bool \<Rightarrow> string \<Rightarrow> string" where
  "justify width left_justify s =
     (if left_justify then s @ replicate (width - length s) (CHR '' '')
      else replicate (width - length s) (CHR '' '') @ s)"

definition format_row :: "format_string \<Rightarrow> string list \<Rightarrow> py_error + string" where
  "format_row fmt row =
     (if length row \<noteq> length fmt then Inl TypeError
      else Inr (separator @
                join separator
                  (map (\<lambda>((width, left_justify), s). '' '' @ justify width left_justify s @ '' '')
                     (zip fmt row)) @
                separator @ [newline]))"

definition get_header_footer :: "nat list \<Rightarrow> string" where
  "get_header_footer col_width =
     header_footer_separator @
     join header_footer_separator
       (map (\<lambda>width. ''-'' @ replicate width (CHR ''-'') @ ''-'') col_width) @
     header_footer_separator"

definition print_header_footer :: "string \<Rightarrow> nat list \<Rightarrow> string" where
  "print_header_footer output col_width = output @ get_header_footer col_width @ [newline]"

definition print_result_set_summary :: "string \<Rightarrow> nat \<Rightarrow> string" where
  "print_result_set_summary output num_rows = output @ get_result_set_summary num_rows"

text \<open>
  The loop over \<open>enumerate(string_results)\<close>: the state is \<open>self.output\<close> and the
  variable \<open>row_num\<close>, which keeps its last value after the loop.
\<close>

fun format_rows ::
  "format_string \<Rightarrow> nat list \<Rightarrow> (nat \<times> string list) list \<Rightarrow> string \<times> nat \<Rightarrow>
     py_error + string \<times> nat" where
  "format_rows fmt col_width [] state = Inr state"
| "format_rows fmt col_width ((row_num, row) # rest) (output, previous) =
     (case format_row fmt row of
        Inl e \<Rightarrow> Inl e
      | Inr line \<Rightarrow>
          format_rows fmt col_width rest
            (if row_num = 0 then print_header_footer (output @ line) col_width
             else output @ line,
             row_num))"

text \<open>
  \<open>HorizontalView.format_results\<close> for the bordered table, from the text
  \<open>output\<close> that the view holds (empty for a new view). Before the loop
  \<open>row_num\<close> is unbound; the loop runs at least for the header.
\<close>

definition format_results :: "string \<Rightarrow> cell list list \<Rightarrow> string list \<Rightarrow> py_error + string" where
  "format_results output results header =
     (if results = [] then Inr (print_result_set_summary output 0)
      else
        (case get_left_justification results of
           Inl e \<Rightarrow> Inl e
         | Inr left_justification \<Rightarrow>
             (let results1 = translate_none_to_null results;
                  results2 = (if want_header then [map StrCell header] @ results1 else results1);
                  string_results = map (map str_cell) results2
              in case get_col_width string_results of
                   Inl e \<Rightarrow> Inl e
                 | Inr col_width \<Rightarrow>
                     (let format_string = create_format_string col_width left_justification;
                          output1 = print_header_footer output col_width
                      in case format_rows format_string col_width
                                (enumerate 0 string_results) (output1, 0) of
                           Inl e \<Rightarrow> Inl e
                         | Inr (output2, row_num) \<Rightarrow>
                             Inr (print_result_set_summary
                                    (print_header_footer output2 col_width) row_num)))))"

section \<open>Notions used to state the properties\<close>

text \<open>\<open>occurs_at s t i\<close>: the text \<open>t\<close> occurs in \<open>s\<close> at index \<open>i\<close>.\<close>

definition occurs_at :: "string \<Rightarrow> string \<Rightarrow> nat \<Rightarrow> bool" where
  "occurs_at s t i = (i \<le> length s \<and> prefix t (drop i s))"

text \<open>
  The loop of \<open>date_macro_substitution\<close> once more, with a bound on the number of
  passes that replace a macro: \<open>None\<close> when the bound is used up before the loop
  has returned.
\<close>

fun date_macro_passes :: "nat \<Rightarrow> SqlQuery \<Rightarrow> SqlQuery option" where
  "date_macro_passes n q =
     (case date_macro_search (query_statement q) of
        None \<Rightarrow> Some q
      | Some (match_start, match_end, the_date_str) \<Rightarrow>
          (let actual_date = get_actual_date the_date_str
           in if actual_date = []
              then Some (q\<lparr>bad_macro := True, bad_macro_string := the_date_str\<rparr>)
              else (case n of
                      0 \<Rightarrow> None
                    | Suc m \<Rightarrow>
                        date_macro_passes m
                          (q\<lparr>query_statement :=
                               take match_start (query_statement q) @ actual_date @
                               drop match_end (query_statement q)\<rparr>))))"

declare date_macro_passes.simps [simp del]

text \<open>
  The query object as the macro loop leaves it, when it starts from the fields the
  constructor sets; and the two tests on the end of a statement that
  \<open>parse_query\<close> makes.
\<close>

definition rewritten :: "string \<Rightarrow> cmd_line_options \<Rightarrow> SqlQuery" where
  "rewritten stmt options = date_macro_substitution (SqlQuery_defaults stmt options)"

definition ends_cancel :: "string \<Rightarrow> bool" where
  "ends_cancel stmt = (endswith stmt [bslash, CHR ''c''] \<or> endswith stmt [bslash, CHR ''C''])"

definition ends_vertical :: "string \<Rightarrow> bool" where
  "ends_vertical stmt = (endswith stmt [bslash, CHR ''g''] \<or> endswith stmt [bslash, CHR ''G''])"


section \<open>Statement extraction takes the earliest terminator\<close>

lemma str_find_sound: "str_find s t = int i \<Longrightarrow> occurs_at s t i"
proof (induction s arbitrary: i)
  case Nil
  then show ?case by (auto simp: occurs_at_def split: if_splits)
next
  case (Cons c cs)
  show ?case
  proof (cases "prefix t (c # cs)")
    case True
    with Cons.prems show ?thesis by (simp add: occurs_at_def)
  next
    case False
    with Cons.prems obtain j where "str_find cs t = int j" "i = Suc j"
      by (cases i) (auto simp: Let_def split: if_splits)
    with Cons.IH show ?thesis by (simp add: occurs_at_def)
  qed
qed

lemma str_find_least: "occurs_at s t i \<Longrightarrow> 0 \<le> str_find s t \<and> str_find s t \<le> int i"
proof (induction s arbitrary: i)
  case Nil
  then show ?case by (simp add: occurs_at_def)
next
  case (Cons c cs)
  show ?case
  proof (cases "prefix t (c # cs)")
    case True
    then show ?thesis by simp
  next
    case False
    with Cons.prems obtain j where j: "i = Suc j" "occurs_at cs t j"
      by (cases i) (auto simp: occurs_at_def)
    from Cons.IH [OF j(2)] False j(1) show ?thesis by (simp add: Let_def)
  qed
qed

lemma occurs_at_nth:
  "occurs_at s t i \<Longrightarrow> k < length t \<Longrightarrow> s ! (i + k) = t ! k \<and> i + k < length s"
  by (auto simp: occurs_at_def prefix_def
      dest!: arg_cong [where f = "\<lambda>xs. (xs ! k, length xs)"] simp: nth_append)

lemma occurs_at_length: "occurs_at s t i \<Longrightarrow> i + length t \<le> length s"
  by (auto simp: occurs_at_def prefix_def dest!: arg_cong [where f = length])

text \<open>
  Two occurrences of terminators never overlap: the one-character terminator is
  not a backslash, and the second character of the others is a letter.
\<close>

lemma terminators_no_overlap:
  assumes "t \<in> set statement_terminators" "t' \<in> set statement_terminators"
    and "occurs_at s t i" "occurs_at s t' i'" "i \<le> i'" "i' < i + length t"
  shows "i' = i \<and> t' = t"
proof -
  have "i' = i \<or> i' = Suc i \<and> length t = 2"
    using assms by (auto simp: statement_terminators_def)
  moreover have "0 < length t" "0 < length t'"
    using assms by (auto simp: statement_terminators_def)
  ultimately show ?thesis
    using occurs_at_nth [OF assms(3), of 0] occurs_at_nth [OF assms(3), of 1]
      occurs_at_nth [OF assms(4), of 0] occurs_at_nth [OF assms(4), of 1] assms(1,2)
    by (auto simp: statement_terminators_def bslash_def)
qed

text \<open>
  The loop compares the start of an occurrence with the end of the best one so
  far. Where occurrences do not overlap that is as good as comparing the starts.
\<close>

lemma smallest_index_invariant:
  assumes ne: "\<forall>t\<in>set ts. t \<noteq> []"
    and novl: "\<And>t t' i i'. t \<in> set ts \<Longrightarrow> t' \<in> set ts \<Longrightarrow> occurs_at s t i \<Longrightarrow>
       occurs_at s t' i' \<Longrightarrow> i \<le> i' \<Longrightarrow> i' < i + length t \<Longrightarrow> i' = i \<and> t' = t"
  shows "(foldl (smallest_index_step s) (int (length s) + 1) ts = int (length s) + 1 \<and>
          (\<forall>t\<in>set ts. \<forall>i. \<not> occurs_at s t i)) \<or>
         (\<exists>t\<in>set ts. \<exists>i. occurs_at s t i \<and>
            foldl (smallest_index_step s) (int (length s) + 1) ts = int (i + length t) \<and>
            (\<forall>t'\<in>set ts. \<forall>i'. occurs_at s t' i' \<longrightarrow> i \<le> i'))"
  using assms
proof (induction ts rule: rev_induct)
  case Nil
  then show ?case by simp
next
  case (snoc x xs)
  let ?r = "foldl (smallest_index_step s) (int (length s) + 1) xs"
  have IH: "(?r = int (length s) + 1 \<and> (\<forall>t\<in>set xs. \<forall>i. \<not> occurs_at s t i)) \<or>
         (\<exists>t\<in>set xs. \<exists>i. occurs_at s t i \<and> ?r = int (i + length t) \<and>
            (\<forall>t'\<in>set xs. \<forall>i'. occurs_at s t' i' \<longrightarrow> i \<le> i'))"
    by (rule snoc.IH) (use snoc.prems in auto)
  have step: "foldl (smallest_index_step s) (int (length s) + 1) (xs @ [x]) =
      smallest_index_step s ?r x" by simp
  show ?case
  proof (cases "str_find s x \<ge> 0")
    case False
    then have nox: "\<forall>i. \<not> occurs_at s x i" using str_find_least by blast
    from False have "smallest_index_step s ?r x = ?r"
      by (simp add: smallest_index_step_def)
    with IH nox step show ?thesis by auto
  next
    case True
    then obtain j where j: "str_find s x = int j" by (metis nonneg_int_cases)
    then have occ: "occurs_at s x j" by (rule str_find_sound)
    have least: "\<forall>i. occurs_at s x i \<longrightarrow> j \<le> i" using str_find_least j by fastforce
    have jlen: "j + length x \<le> length s" using occ by (rule occurs_at_length)
    from IH show ?thesis
    proof
      assume a: "?r = int (length s) + 1 \<and> (\<forall>t\<in>set xs. \<forall>i. \<not> occurs_at s t i)"
      with j jlen occ have "smallest_index_step s ?r x = int (j + length x)"
        by (simp add: smallest_index_step_def occurs_at_def)
      with a occ least step show ?thesis by auto
    next
      assume "\<exists>t\<in>set xs. \<exists>i. occurs_at s t i \<and> ?r = int (i + length t) \<and>
            (\<forall>t'\<in>set xs. \<forall>i'. occurs_at s t' i' \<longrightarrow> i \<le> i')"
      then obtain t i where t: "t \<in> set xs" "occurs_at s t i" "?r = int (i + length t)"
        "\<forall>t'\<in>set xs. \<forall>i'. occurs_at s t' i' \<longrightarrow> i \<le> i'" by blast
      show ?thesis
      proof (cases "j < i")
        case True
        with j t(3) have "smallest_index_step s ?r x = int (j + length x)"
          by (simp add: smallest_index_step_def)
        moreover have "\<forall>t'\<in>set (xs @ [x]). \<forall>i'. occurs_at s t' i' \<longrightarrow> j \<le> i'"
          using t(4) least True by fastforce
        ultimately show ?thesis using occ step by auto
      next
        case False
        have "\<not> j < i + length t \<or> (j = i \<and> x = t)"
          using snoc.prems(2) [of t x i j] t(1,2) occ False by auto
        then have "smallest_index_step s ?r x = ?r"
          using j t(3) by (auto simp: smallest_index_step_def)
        moreover have "\<forall>t'\<in>set (xs @ [x]). \<forall>i'. occurs_at s t' i' \<longrightarrow> i \<le> i'"
          using t(4) least False by fastforce
        ultimately show ?thesis using t(1,2,3) step by auto
      qed
    qed
  qed
qed

text \<open>
  C1. When a terminator occurs in the buffer, \<open>get_statement_from_buffer\<close> returns
  the prefix of the buffer that ends with the terminator occurrence of the
  smallest start index, and leaves the rest of the buffer without its leading
  white space. No other terminator occurs at that index, so no tie is ever to be
  broken. When no terminator occurs, the result is empty and the buffer is
  unchanged.
\<close>

theorem get_statement_from_buffer_earliest:
  "((\<exists>t\<in>set statement_terminators. \<exists>i. occurs_at s t i) \<longrightarrow>
      (\<exists>t\<in>set statement_terminators. \<exists>i. occurs_at s t i \<and>
         (\<forall>t'\<in>set statement_terminators. \<forall>i'. occurs_at s t' i' \<longrightarrow>
            i \<le> i' \<and> (i' = i \<longrightarrow> t' = t)) \<and>
         get_statement_from_buffer statement_terminators s =
           (take (i + length t) s, lstrip (drop (i + length t) s)))) \<and>
   ((\<forall>t\<in>set statement_terminators. \<forall>i. \<not> occurs_at s t i) \<longrightarrow>
      get_statement_from_buffer statement_terminators s = ([], s))"
proof -
  let ?ts = statement_terminators
  let ?r = "foldl (smallest_index_step s) (int (length s) + 1) ?ts"
  have ne: "\<forall>t\<in>set ?ts. t \<noteq> []" by (simp add: statement_terminators_def)
  have inv: "(?r = int (length s) + 1 \<and> (\<forall>t\<in>set ?ts. \<forall>i. \<not> occurs_at s t i)) \<or>
         (\<exists>t\<in>set ?ts. \<exists>i. occurs_at s t i \<and> ?r = int (i + length t) \<and>
            (\<forall>t'\<in>set ?ts. \<forall>i'. occurs_at s t' i' \<longrightarrow> i \<le> i'))"
    by (rule smallest_index_invariant [OF ne]) (rule terminators_no_overlap)
  show ?thesis
  proof (intro conjI impI)
    assume "\<exists>t\<in>set ?ts. \<exists>i. occurs_at s t i"
    with inv obtain t i where t: "t \<in> set ?ts" "occurs_at s t i" "?r = int (i + length t)"
      "\<forall>t'\<in>set ?ts. \<forall>i'. occurs_at s t' i' \<longrightarrow> i \<le> i'" by blast
    have len: "i + length t \<le> length s" using t(2) by (rule occurs_at_length)
    have uniq: "\<forall>t'\<in>set ?ts. \<forall>i'. occurs_at s t' i' \<longrightarrow> i' = i \<longrightarrow> t' = t"
      using terminators_no_overlap [OF t(1) _ t(2)] ne t(1) by fastforce
    have "get_statement_from_buffer ?ts s =
        (take (i + length t) s, lstrip (drop (i + length t) s))"
    proof -
      have "nat ?r = i + length t" using t(3) by simp
      moreover have "?r \<le> int (length s)" using t(3) len by simp
      ultimately show ?thesis
        unfolding get_statement_from_buffer_def Let_def by simp
    qed
    with t uniq show "\<exists>t\<in>set ?ts. \<exists>i. occurs_at s t i \<and>
         (\<forall>t'\<in>set ?ts. \<forall>i'. occurs_at s t' i' \<longrightarrow> i \<le> i' \<and> (i' = i \<longrightarrow> t' = t)) \<and>
         get_statement_from_buffer ?ts s =
           (take (i + length t) s, lstrip (drop (i + length t) s))" by blast
  next
    assume "\<forall>t\<in>set ?ts. \<forall>i. \<not> occurs_at s t i"
    with inv have "?r = int (length s) + 1" by blast
    then show "get_statement_from_buffer ?ts s = ([], s)"
      by (simp add: get_statement_from_buffer_def)
  qed
qed


theorem get_statement_from_buffer_earliest_witness:
  "(\<exists>t\<in>set statement_terminators. \<exists>i. occurs_at (''a'' @ [bslash, CHR ''g''] @ '' b; c'') t i) \<and>
   (\<exists>t\<in>set statement_terminators. \<exists>i. occurs_at (''a'' @ [bslash, CHR ''g''] @ '' b; c'') t i \<and>
      get_statement_from_buffer statement_terminators (''a'' @ [bslash, CHR ''g''] @ '' b; c'') =
        (take (i + length t) (''a'' @ [bslash, CHR ''g''] @ '' b; c''),
         lstrip (drop (i + length t) (''a'' @ [bslash, CHR ''g''] @ '' b; c'')))) \<and>
   get_statement_from_buffer statement_terminators (''a'' @ [bslash, CHR ''g''] @ '' b; c'') =
     (''a'' @ [bslash, CHR ''g''], ''b; c'') \<and>
   get_statement_from_buffer statement_terminators ''select 1'' = ([], ''select 1'')"
proof -
  let ?s = "''a'' @ [bslash, CHR ''g''] @ '' b; c''"
  have "occurs_at ?s [bslash, CHR ''g''] 1" by (simp add: occurs_at_def)
  then have a: "\<exists>t\<in>set statement_terminators. \<exists>i. occurs_at ?s t i"
    by (auto simp: statement_terminators_def)
  have "\<forall>t\<in>set statement_terminators. str_find ''select 1'' t = -1"
    by (simp add: statement_terminators_def bslash_def)
  then have b: "\<forall>t\<in>set statement_terminators. \<forall>i. \<not> occurs_at ''select 1'' t i"
    using str_find_least by fastforce
  have c: "get_statement_from_buffer statement_terminators ?s =
      (''a'' @ [bslash, CHR ''g''], ''b; c'')"
    by (simp add: get_statement_from_buffer_def statement_terminators_def
        smallest_index_step_def bslash_def lstrip_def is_space_def)
  from a b c get_statement_from_buffer_earliest [of ?s]
    get_statement_from_buffer_earliest [of "''select 1''"]
  show ?thesis by blast
qed


section \<open>The quit check does not trim\<close>

lemma lower_char_cases:
  "lower_char c = c \<or> (c \<in> set ''ABCDEFGHIJKLMNOPQRSTUVWXYZ'' \<and> lower_char c \<in> set ''abcdefghijklmnopqrstuvwxyz'')"
proof (cases "map_of (zip ''ABCDEFGHIJKLMNOPQRSTUVWXYZ'' ''abcdefghijklmnopqrstuvwxyz'') c")
  case None
  then have "lower_char c = c" by (simp only: lower_char_def option.case)
  then show ?thesis by blast
next
  case (Some l)
  then have "(c, l) \<in> set (zip ''ABCDEFGHIJKLMNOPQRSTUVWXYZ'' ''abcdefghijklmnopqrstuvwxyz'')"
    by (rule map_of_SomeD)
  then have "c \<in> set ''ABCDEFGHIJKLMNOPQRSTUVWXYZ''" "l \<in> set ''abcdefghijklmnopqrstuvwxyz''"
    by (auto dest: set_zip_leftD set_zip_rightD)
  moreover have "lower_char c = l" using Some by (simp only: lower_char_def option.case)
  ultimately show ?thesis by blast
qed

lemma is_space_not_letter:
  "is_space c \<Longrightarrow> c \<notin> set ''ABCDEFGHIJKLMNOPQRSTUVWXYZ'' \<and> c \<notin> set ''abcdefghijklmnopqrstuvwxyz''"
  unfolding is_space_def by (elim disjE | simp)+

lemma is_space_lower_char: "is_space (lower_char c) = is_space c"
proof (cases "lower_char c = c")
  case True
  then show ?thesis by simp
next
  case False
  with lower_char_cases [of c]
  have u: "c \<in> set ''ABCDEFGHIJKLMNOPQRSTUVWXYZ''"
    and l: "lower_char c \<in> set ''abcdefghijklmnopqrstuvwxyz''" by blast+
  from u have "\<not> is_space c" using is_space_not_letter [of c] by blast
  moreover from l have "\<not> is_space (lower_char c)"
    using is_space_not_letter [of "lower_char c"] by blast
  ultimately show ?thesis by simp
qed

lemma strip_unchanged:
  assumes "s \<noteq> []" "\<not> is_space (hd s)" "\<not> is_space (last s)"
  shows "strip s = s"
proof -
  have "dropWhile is_space s = s" using assms by (simp add: dropWhile_eq_self_iff)
  moreover have "dropWhile is_space (rev s) = rev s"
    using assms by (simp add: dropWhile_eq_self_iff hd_rev)
  ultimately show ?thesis by (simp add: strip_def lstrip_def rstrip_def)
qed

text \<open>
  C9, as the code has it. \<open>check_for_quit\<close> lower-cases the buffer and compares
  it as it is: it signals the end of the input exactly when the buffer has no
  white space around it and, lower-cased, is one of \<open>quit\<close>, \<open>quit;\<close>, \<open>exit\<close>,
  \<open>exit;\<close>.
\<close>

theorem check_for_quit_untrimmed:
  "check_for_quit buf \<longleftrightarrow> strip buf = buf \<and> lower (strip buf) \<in> set quit_statements"
proof
  assume "check_for_quit buf"
  then have q: "lower buf \<in> set quit_statements"
    by (auto simp: check_for_quit_def list_ex_iff)
  then have ne: "buf \<noteq> []" by (auto simp: quit_statements_def lower_def)
  have "hd (lower buf) = lower_char (hd buf)" "last (lower buf) = lower_char (last buf)"
    using ne by (simp_all add: lower_def hd_map last_map)
  moreover have "\<not> is_space (hd (lower buf))" "\<not> is_space (last (lower buf))"
    using q by (auto simp: quit_statements_def is_space_def)
  ultimately have "\<not> is_space (hd buf)" "\<not> is_space (last buf)"
    by (simp_all add: is_space_lower_char)
  with ne have "strip buf = buf" by (rule strip_unchanged)
  with q show "strip buf = buf \<and> lower (strip buf) \<in> set quit_statements" by simp
next
  assume "strip buf = buf \<and> lower (strip buf) \<in> set quit_statements"
  then show "check_for_quit buf" by (auto simp: check_for_quit_def list_ex_iff)
qed

theorem check_for_quit_untrimmed_witness:
  "check_for_quit ''QuIt;'' \<and> \<not> check_for_quit ''quit ''"
proof -
  have a: "strip ''QuIt;'' = ''QuIt;'' \<and> lower (strip ''QuIt;'') \<in> set quit_statements"
    by code_simp
  have b: "strip ''quit '' \<noteq> ''quit ''" by code_simp
  from a b show ?thesis
    using check_for_quit_untrimmed [of "''QuIt;''"] check_for_quit_untrimmed [of "''quit ''"]
    by blast
qed

text \<open>
  The buffer of two spaces and \<open>quit\<close> is a quit command once trimmed, and the
  check does not signal.
\<close>

theorem check_for_quit_counterexample:
  "lower (strip ''  quit'') \<in> set quit_statements \<and> \<not> check_for_quit ''  quit''"
  by code_simp

section \<open>Classification of a statement\<close>

lemma date_macro_substitution_none:
  "date_macro_search (query_statement q) = None \<Longrightarrow> date_macro_substitution q = q"
  by (subst date_macro_substitution.simps) simp

lemma date_macro_substitution_bad:
  "date_macro_search (query_statement q) = Some (st, en, g) \<Longrightarrow> get_actual_date g = [] \<Longrightarrow>
     date_macro_substitution q = q\<lparr>bad_macro := True, bad_macro_string := g\<rparr>"
  by (subst date_macro_substitution.simps) simp

lemma date_macro_substitution_good:
  "date_macro_search (query_statement q) = Some (st, en, g) \<Longrightarrow> get_actual_date g \<noteq> [] \<Longrightarrow>
     date_macro_substitution q =
       date_macro_substitution
         (q\<lparr>query_statement :=
              take st (query_statement q) @ get_actual_date g @ drop en (query_statement q)\<rparr>)"
  by (subst date_macro_substitution.simps) simp

lemma date_macro_substitution_induct [case_names none bad good]:
  assumes "\<And>q :: SqlQuery. date_macro_search (query_statement q) = None \<Longrightarrow> P q"
    and "\<And>(q :: SqlQuery) st en g. date_macro_search (query_statement q) = Some (st, en, g) \<Longrightarrow>
           get_actual_date g = [] \<Longrightarrow> P q"
    and "\<And>(q :: SqlQuery) st en g. date_macro_search (query_statement q) = Some (st, en, g) \<Longrightarrow>
           get_actual_date g \<noteq> [] \<Longrightarrow>
           P (q\<lparr>query_statement :=
                  take st (query_statement q) @ get_actual_date g @
                  drop en (query_statement q)\<rparr>) \<Longrightarrow> P q"
  shows "P q"
proof (induction q rule: date_macro_substitution.induct)
  case (1 q)
  show ?case
  proof (cases "date_macro_search (query_statement q)")
    case None
    then show ?thesis by (rule assms(1))
  next
    case (Some m)
    obtain st en g where "m = (st, en, g)" by (cases m)
    with Some have s: "date_macro_search (query_statement q) = Some (st, en, g)" by simp
    show ?thesis
    proof (cases "get_actual_date g = []")
      case True
      with s show ?thesis by (rule assms(2))
    next
      case False
      from s False "1.IH" [OF s refl refl refl False] show ?thesis by (rule assms(3))
    qed
  qed
qed

lemma date_macro_substitution_flags:
  "illegal_query (date_macro_substitution q) = illegal_query q \<and>
   cancelled (date_macro_substitution q) = cancelled q \<and>
   view_type (date_macro_substitution q) = view_type q \<and>
   cmd_line_options (date_macro_substitution q) = cmd_line_options q"
proof (induction q rule: date_macro_substitution_induct)
  case (none q)
  then show ?case by (simp add: date_macro_substitution_none)
next
  case (bad q st en g)
  then show ?case by (simp add: date_macro_substitution_bad)
next
  case (good q st en g)
  then show ?case by (simp add: date_macro_substitution_good [of q])
qed

lemma date_macro_substitution_illegal_update:
  "date_macro_substitution (q\<lparr>illegal_query := b\<rparr>) =
     (date_macro_substitution q)\<lparr>illegal_query := b\<rparr>"
proof (induction q rule: date_macro_substitution_induct)
  case (none q)
  then show ?case by (simp add: date_macro_substitution_none)
next
  case (bad q st en g)
  then show ?case
    by (simp add: date_macro_substitution_bad [of q]
        date_macro_substitution_bad [of "q\<lparr>illegal_query := b\<rparr>"])
next
  case (good q st en g)
  let ?t = "take st (query_statement q) @ get_actual_date g @ drop en (query_statement q)"
  have "date_macro_substitution (q\<lparr>illegal_query := b\<rparr>) =
      date_macro_substitution (q\<lparr>illegal_query := b\<rparr>\<lparr>query_statement := ?t\<rparr>)"
    using good(1,2) date_macro_substitution_good [of "q\<lparr>illegal_query := b\<rparr>" st en g]
    by simp
  also have "q\<lparr>illegal_query := b\<rparr>\<lparr>query_statement := ?t\<rparr> =
      q\<lparr>query_statement := ?t\<rparr>\<lparr>illegal_query := b\<rparr>" by simp
  also have "date_macro_substitution \<dots> =
      (date_macro_substitution (q\<lparr>query_statement := ?t\<rparr>))\<lparr>illegal_query := b\<rparr>"
    by (rule good(3))
  also have "date_macro_substitution (q\<lparr>query_statement := ?t\<rparr>) = date_macro_substitution q"
    using good(1,2) by (simp add: date_macro_substitution_good [of q])
  finally show ?case .
qed

lemma prefix_through_bracket:
  "CHR '')'' \<notin> set y \<Longrightarrow> length y \<le> 2 \<Longrightarrow>
     prefix y (p @ CHR '')'' # A) = prefix y (p @ CHR '')'' # B)"
  by (cases y; cases "tl y"; cases p; cases "tl p") (auto simp: prefix_Cons)

lemma endswith_macro_step:
  assumes s: "date_macro_search s = Some (st, en, g)" and d: "get_actual_date g \<noteq> []"
    and x: "CHR '')'' \<notin> set x" "length x \<le> 2"
  shows "endswith (take st s @ get_actual_date g @ drop en s) x = endswith s x"
proof -
  from date_macro_search_Some [OF s]
  have eq: "s = take st s @ macro_open @ g @ macro_close @ drop en s" by blast
  from d obtain str where str: "get_actual_date g = to_date_call str"
    using get_actual_date_loop_shape unfolding get_actual_date_def by blast
  obtain A where "get_actual_date g = A @ '')''"
    unfolding str to_date_call_def by (metis append_assoc)
  then have a: "rev (take st s @ get_actual_date g @ drop en s) =
      rev (drop en s) @ CHR '')'' # (rev A @ rev (take st s))"
    by simp
  have "rev s = rev (take st s @ macro_open @ g @ macro_close @ drop en s)"
    using eq by simp
  then have b: "rev s = rev (drop en s) @ CHR '')'' # (squote # rev g @ rev macro_open @ rev (take st s))"
    by (simp add: macro_close_def)
  have "prefix (rev x) (rev (take st s @ get_actual_date g @ drop en s)) = prefix (rev x) (rev s)"
    unfolding a b using x by (intro prefix_through_bracket) simp_all
  then show ?thesis by (simp add: endswith_def)
qed

lemma date_macro_substitution_endswith:
  "CHR '')'' \<notin> set x \<Longrightarrow> length x \<le> 2 \<Longrightarrow>
     endswith (query_statement (date_macro_substitution q)) x = endswith (query_statement q) x"
proof (induction q rule: date_macro_substitution_induct)
  case (none q)
  then show ?case by (simp add: date_macro_substitution_none)
next
  case (bad q st en g)
  then show ?case by (simp add: date_macro_substitution_bad)
next
  case (good q st en g)
  then show ?case
    by (simp add: date_macro_substitution_good [of q] endswith_macro_step)
qed

lemma rewritten_flags:
  "illegal_query (rewritten stmt options) = False"
  "cancelled (rewritten stmt options) = False"
  "view_type (rewritten stmt options) = HORIZONTAL_TABLE"
  "cmd_line_options (rewritten stmt options) = options"
  using date_macro_substitution_flags [of "SqlQuery_defaults stmt options"]
  by (simp_all add: rewritten_def SqlQuery_defaults_def)

lemma rewritten_endswith:
  "endswith (query_statement (rewritten stmt options)) '';'' = endswith stmt '';''"
  "endswith (query_statement (rewritten stmt options)) [bslash, CHR ''g''] =
     endswith stmt [bslash, CHR ''g'']"
  "endswith (query_statement (rewritten stmt options)) [bslash, CHR ''G''] =
     endswith stmt [bslash, CHR ''G'']"
  using date_macro_substitution_endswith [of "'';''" "SqlQuery_defaults stmt options"]
    date_macro_substitution_endswith [of "[bslash, CHR ''g'']" "SqlQuery_defaults stmt options"]
    date_macro_substitution_endswith [of "[bslash, CHR ''G'']" "SqlQuery_defaults stmt options"]
  by (simp_all add: rewritten_def SqlQuery_defaults_def bslash_def)

lemma SqlQuery_init_cancelled:
  "ends_cancel stmt \<Longrightarrow>
     SqlQuery_init stmt options = (SqlQuery_defaults stmt options)\<lparr>cancelled := True\<rparr>"
  by (auto simp: SqlQuery_init_def parse_query_def ends_cancel_def SqlQuery_defaults_def)

text \<open>What \<open>parse_query\<close> makes of a statement that is not cancelled.\<close>

lemma SqlQuery_init_not_cancelled:
  assumes "\<not> ends_cancel stmt"
  shows "SqlQuery_init stmt options =
    (let q2 = (rewritten stmt options)
                \<lparr>illegal_query := is_illegal_query (SqlQuery_defaults stmt options)\<rparr>
     in if execute_query options \<noteq> []
        then (if endswith stmt '';''
              then q2\<lparr>view_type := HORIZONTAL_TABS,
                      query_statement := butlast (query_statement q2)\<rparr>
              else q2\<lparr>view_type := HORIZONTAL_TABS\<rparr>)
        else if ends_vertical stmt
        then q2\<lparr>query_statement := take (length (query_statement q2) - 2) (query_statement q2),
                view_type := VERTICAL\<rparr>
        else if endswith stmt '';''
        then q2\<lparr>query_statement := butlast (query_statement q2),
                view_type := HORIZONTAL_TABLE\<rparr>
        else q2)"
proof -
  let ?q0 = "SqlQuery_defaults stmt options"
  have r1: "do_macro_substitution (?q0\<lparr>illegal_query := True\<rparr>) =
      (rewritten stmt options)\<lparr>illegal_query := True\<rparr>"
    unfolding do_macro_substitution_def rewritten_def
    by (rule date_macro_substitution_illegal_update)
  have r2: "do_macro_substitution ?q0 = rewritten stmt options"
    by (simp add: do_macro_substitution_def rewritten_def)
  have r3: "(rewritten stmt options)\<lparr>illegal_query := False\<rparr> = rewritten stmt options"
    using rewritten_flags(1) [of stmt options] by (cases "rewritten stmt options") simp
  have q0: "query_statement ?q0 = stmt" by (simp add: SqlQuery_defaults_def)
  have nc: "\<not> endswith stmt [bslash, CHR ''c'']" "\<not> endswith stmt [bslash, CHR ''C'']"
    using assms by (simp_all add: ends_cancel_def)
  show ?thesis
  proof (cases "is_illegal_query ?q0")
    case True
    then show ?thesis
      unfolding SqlQuery_init_def parse_query_def [of ?q0]
      by (simp add: Let_def q0 nc r1 rewritten_flags rewritten_endswith ends_vertical_def)
  next
    case False
    then show ?thesis
      unfolding SqlQuery_init_def parse_query_def [of ?q0]
      by (simp add: Let_def q0 nc r2 r3 rewritten_flags rewritten_endswith ends_vertical_def)
  qed
qed


lemma SqlQuery_init_cancelled_iff: "cancelled (SqlQuery_init stmt options) = ends_cancel stmt"
proof (cases "ends_cancel stmt")
  case True
  then show ?thesis by (simp add: SqlQuery_init_cancelled)
next
  case False
  then show ?thesis
    by (simp add: SqlQuery_init_not_cancelled Let_def rewritten_flags)
qed

lemma SqlQuery_init_bad_macro:
  "\<not> ends_cancel stmt \<Longrightarrow>
     bad_macro (SqlQuery_init stmt options) = bad_macro (rewritten stmt options) \<and>
     bad_macro_string (SqlQuery_init stmt options) = bad_macro_string (rewritten stmt options)"
  by (simp add: SqlQuery_init_not_cancelled Let_def)

text \<open>
  C6, as the code has it. A statement that begins, trimmed and lower-cased, with
  a disallowed keyword is marked illegal whatever its terminator, unless it ends
  with the cancel marker \<open>\c\<close> or \<open>\C\<close>: \<open>parse_query\<close> returns for a cancelled
  statement before it looks at the keywords.
\<close>

theorem illegal_unless_cancelled:
  "illegal_query (SqlQuery_init stmt options) \<longleftrightarrow>
     (\<exists>word\<in>set illegal_query_words. startswith (lower (strip stmt)) word) \<and>
     \<not> ends_cancel stmt"
proof (cases "ends_cancel stmt")
  case True
  then show ?thesis by (simp add: SqlQuery_init_cancelled SqlQuery_defaults_def)
next
  case False
  have "is_illegal_query (SqlQuery_defaults stmt options) =
      (\<exists>word\<in>set illegal_query_words. startswith (lower (strip stmt)) word)"
    by (simp add: is_illegal_query_def SqlQuery_defaults_def list_ex_iff)
  with False show ?thesis
    by (simp add: SqlQuery_init_not_cancelled Let_def)
qed

theorem illegal_unless_cancelled_witness:
  "illegal_query (SqlQuery_init ''  Drop table t;'' \<lparr>execute_query = []\<rparr>) \<and>
   illegal_query (SqlQuery_init (''update t set a = 1'' @ [bslash, CHR ''G''])
     \<lparr>execute_query = []\<rparr>)"
proof -
  have a: "''drop'' \<in> set illegal_query_words \<and> startswith (lower (strip ''  Drop table t;'')) ''drop'' \<and>
      \<not> ends_cancel ''  Drop table t;''"
    by code_simp
  have b: "''update'' \<in> set illegal_query_words \<and>
      startswith (lower (strip (''update t set a = 1'' @ [bslash, CHR ''G'']))) ''update'' \<and>
      \<not> ends_cancel (''update t set a = 1'' @ [bslash, CHR ''G''])"
    by code_simp
  from a b show ?thesis
    using illegal_unless_cancelled [of "''  Drop table t;''" "\<lparr>execute_query = []\<rparr>"]
      illegal_unless_cancelled [of "''update t set a = 1'' @ [bslash, CHR ''G'']" "\<lparr>execute_query = []\<rparr>"]
    by blast
qed

text \<open>
  A statement that begins with \<open>drop\<close> and ends with \<open>\c\<close> is not marked illegal.
\<close>

theorem illegal_cancelled_counterexample:
  "startswith (lower (strip (''drop table t'' @ [bslash, CHR ''c'']))) ''drop'' \<and>
   ''drop'' \<in> set illegal_query_words \<and>
   \<not> illegal_query (SqlQuery_init (''drop table t'' @ [bslash, CHR ''c'']) \<lparr>execute_query = []\<rparr>)"
  by code_simp

text \<open>
  C3, as the code has it. A cancelled statement is neither illegal nor carries a
  macro error, and a statement is runnable exactly when none of the three flags
  is set; but the illegal flag and the macro error can be set together, and then
  \<open>handle_single_query\<close> reports the statement as illegal.
\<close>

theorem outcome_flags:
  "(cancelled (SqlQuery_init stmt options) \<longrightarrow>
      \<not> illegal_query (SqlQuery_init stmt options) \<and> \<not> bad_macro (SqlQuery_init stmt options)) \<and>
   (handle_single_query_branch (SqlQuery_init stmt options) = Run_query \<longleftrightarrow>
      \<not> cancelled (SqlQuery_init stmt options) \<and> \<not> illegal_query (SqlQuery_init stmt options) \<and>
      \<not> bad_macro (SqlQuery_init stmt options)) \<and>
   (illegal_query (SqlQuery_init stmt options) \<and> bad_macro (SqlQuery_init stmt options) \<longrightarrow>
      handle_single_query_branch (SqlQuery_init stmt options) = Report_illegal)"
proof -
  have "cancelled (SqlQuery_init stmt options) \<longrightarrow>
      \<not> illegal_query (SqlQuery_init stmt options) \<and> \<not> bad_macro (SqlQuery_init stmt options)"
  proof
    assume "cancelled (SqlQuery_init stmt options)"
    then have "ends_cancel stmt" by (simp add: SqlQuery_init_cancelled_iff)
    then show "\<not> illegal_query (SqlQuery_init stmt options) \<and>
        \<not> bad_macro (SqlQuery_init stmt options)"
      by (simp add: SqlQuery_init_cancelled SqlQuery_defaults_def)
  qed
  then show ?thesis by (auto simp: handle_single_query_branch_def)
qed

theorem outcome_flags_witness:
  "cancelled (SqlQuery_init (''select 1'' @ [bslash, CHR ''c'']) \<lparr>execute_query = []\<rparr>) \<and>
   \<not> illegal_query (SqlQuery_init (''select 1'' @ [bslash, CHR ''c'']) \<lparr>execute_query = []\<rparr>) \<and>
   \<not> bad_macro (SqlQuery_init (''select 1'' @ [bslash, CHR ''c'']) \<lparr>execute_query = []\<rparr>)"
proof -
  have "cancelled (SqlQuery_init (''select 1'' @ [bslash, CHR ''c'']) \<lparr>execute_query = []\<rparr>)"
    by code_simp
  then show ?thesis
    using outcome_flags [of "''select 1'' @ [bslash, CHR ''c'']" "\<lparr>execute_query = []\<rparr>"]
    by blast
qed

text \<open>
  A statement that begins with \<open>drop\<close> and holds a date macro that does not
  parse is illegal and has a macro error at once.
\<close>

theorem outcome_flags_counterexample:
  "illegal_query (SqlQuery_init (''drop #date('' @ [squote] @ ''x'' @ [squote] @ '');'')
     \<lparr>execute_query = []\<rparr>) \<and>
   bad_macro (SqlQuery_init (''drop #date('' @ [squote] @ ''x'' @ [squote] @ '');'')
     \<lparr>execute_query = []\<rparr>)"
  by code_simp


lemma endswith_split: "endswith s x \<Longrightarrow> \<exists>p. s = p @ x"
proof -
  assume "endswith s x"
  then obtain zs where "rev s = rev x @ zs" by (auto simp: endswith_def prefix_def)
  then have "s = rev zs @ x" by (metis rev_append rev_rev_ident)
  then show ?thesis by blast
qed

lemma endswith_butlast: "endswith s [c] \<Longrightarrow> butlast s @ [c] = s"
  using endswith_split [of s "[c]"] by auto

lemma endswith_take2: "endswith s [a, b] \<Longrightarrow> take (length s - 2) s @ [a, b] = s"
  using endswith_split [of s "[a, b]"] by auto

text \<open>
  The last step of \<open>parse_query\<close>, for any statement that is not cancelled, in
  terms of the statement as given and of the text \<open>t\<close> after the macro loop.
\<close>

lemma terminator_step_general:
  assumes nc: "\<not> ends_cancel stmt"
  shows "(execute_query options \<noteq> [] \<longrightarrow>
        view_type (SqlQuery_init stmt options) = HORIZONTAL_TABS \<and>
        (if endswith stmt '';''
         then query_statement (SqlQuery_init stmt options) @ '';'' =
              query_statement (rewritten stmt options)
         else query_statement (SqlQuery_init stmt options) =
              query_statement (rewritten stmt options))) \<and>
     (execute_query options = [] \<and> ends_vertical stmt \<longrightarrow>
        view_type (SqlQuery_init stmt options) = VERTICAL \<and>
        (query_statement (SqlQuery_init stmt options) @ [bslash, CHR ''g''] =
           query_statement (rewritten stmt options) \<or>
         query_statement (SqlQuery_init stmt options) @ [bslash, CHR ''G''] =
           query_statement (rewritten stmt options))) \<and>
     (execute_query options = [] \<and> \<not> ends_vertical stmt \<and> endswith stmt '';'' \<longrightarrow>
        view_type (SqlQuery_init stmt options) = HORIZONTAL_TABLE \<and>
        query_statement (SqlQuery_init stmt options) @ '';'' =
          query_statement (rewritten stmt options)) \<and>
     (execute_query options = [] \<and> \<not> ends_vertical stmt \<and> \<not> endswith stmt '';'' \<longrightarrow>
        view_type (SqlQuery_init stmt options) = HORIZONTAL_TABLE \<and>
        query_statement (SqlQuery_init stmt options) =
          query_statement (rewritten stmt options))"
proof -
  let ?t = "query_statement (rewritten stmt options)"
  have semi: "endswith stmt '';'' \<Longrightarrow> butlast ?t @ '';'' = ?t"
    using rewritten_endswith(1) [of stmt options] by (simp add: endswith_butlast)
  have vert: "ends_vertical stmt \<Longrightarrow>
      take (length ?t - 2) ?t @ [bslash, CHR ''g''] = ?t \<or>
      take (length ?t - 2) ?t @ [bslash, CHR ''G''] = ?t"
    using rewritten_endswith(2,3) [of stmt options] endswith_take2 [of ?t]
    by (auto simp: ends_vertical_def)
  show ?thesis
    using semi vert
    by (simp add: SqlQuery_init_not_cancelled [OF nc] Let_def rewritten_flags)
qed


text \<open>
  C5. The three examples of the specification, and the last step of
  \<open>parse_query\<close> for every statement that is not cancelled, not illegal and
  without macro error: in single-shot mode the view is tab-separated and only a
  final \<open>;\<close> is removed; otherwise a final \<open>\g\<close> or \<open>\G\<close> is removed and the view is
  vertical, or a final \<open>;\<close> is removed and the view is the bordered table; with
  no terminator the text stays and the view is the bordered table. The text is
  the statement after the macro loop.
\<close>

theorem classify_terminator_step:
  "query_statement (SqlQuery_init ''select 1;'' \<lparr>execute_query = []\<rparr>) = ''select 1'' \<and>
   view_type (SqlQuery_init ''select 1;'' \<lparr>execute_query = []\<rparr>) = HORIZONTAL_TABLE \<and>
   query_statement (SqlQuery_init (''select 1'' @ [bslash, CHR ''g'']) \<lparr>execute_query = []\<rparr>) =
     ''select 1'' \<and>
   view_type (SqlQuery_init (''select 1'' @ [bslash, CHR ''g'']) \<lparr>execute_query = []\<rparr>) =
     VERTICAL \<and>
   query_statement (SqlQuery_init ''select 1;'' \<lparr>execute_query = ''select 1;''\<rparr>) =
     ''select 1'' \<and>
   view_type (SqlQuery_init ''select 1;'' \<lparr>execute_query = ''select 1;''\<rparr>) =
     HORIZONTAL_TABS \<and>
   (\<not> cancelled (SqlQuery_init stmt options) \<and> \<not> illegal_query (SqlQuery_init stmt options) \<and>
    \<not> bad_macro (SqlQuery_init stmt options) \<longrightarrow>
     (execute_query options \<noteq> [] \<longrightarrow>
        view_type (SqlQuery_init stmt options) = HORIZONTAL_TABS \<and>
        (if endswith stmt '';''
         then query_statement (SqlQuery_init stmt options) @ '';'' =
              query_statement (rewritten stmt options)
         else query_statement (SqlQuery_init stmt options) =
              query_statement (rewritten stmt options))) \<and>
     (execute_query options = [] \<and> ends_vertical stmt \<longrightarrow>
        view_type (SqlQuery_init stmt options) = VERTICAL \<and>
        (query_statement (SqlQuery_init stmt options) @ [bslash, CHR ''g''] =
           query_statement (rewritten stmt options) \<or>
         query_statement (SqlQuery_init stmt options) @ [bslash, CHR ''G''] =
           query_statement (rewritten stmt options))) \<and>
     (execute_query options = [] \<and> \<not> ends_vertical stmt \<and> endswith stmt '';'' \<longrightarrow>
        view_type (SqlQuery_init stmt options) = HORIZONTAL_TABLE \<and>
        query_statement (SqlQuery_init stmt options) @ '';'' =
          query_statement (rewritten stmt options)) \<and>
     (execute_query options = [] \<and> \<not> ends_vertical stmt \<and> \<not> endswith stmt '';'' \<longrightarrow>
        view_type (SqlQuery_init stmt options) = HORIZONTAL_TABLE \<and>
        query_statement (SqlQuery_init stmt options) =
          query_statement (rewritten stmt options)))"
proof -
  have ex: "query_statement (SqlQuery_init ''select 1;'' \<lparr>execute_query = []\<rparr>) = ''select 1'' \<and>
   view_type (SqlQuery_init ''select 1;'' \<lparr>execute_query = []\<rparr>) = HORIZONTAL_TABLE \<and>
   query_statement (SqlQuery_init (''select 1'' @ [bslash, CHR ''g'']) \<lparr>execute_query = []\<rparr>) =
     ''select 1'' \<and>
   view_type (SqlQuery_init (''select 1'' @ [bslash, CHR ''g'']) \<lparr>execute_query = []\<rparr>) =
     VERTICAL \<and>
   query_statement (SqlQuery_init ''select 1;'' \<lparr>execute_query = ''select 1;''\<rparr>) =
     ''select 1'' \<and>
   view_type (SqlQuery_init ''select 1;'' \<lparr>execute_query = ''select 1;''\<rparr>) =
     HORIZONTAL_TABS"
    by code_simp
  have "\<not> cancelled (SqlQuery_init stmt options) \<Longrightarrow> \<not> ends_cancel stmt"
    by (simp add: SqlQuery_init_cancelled_iff)
  with ex terminator_step_general [of stmt options] show ?thesis by blast
qed

theorem classify_terminator_step_witness:
  "\<not> cancelled (SqlQuery_init (''select #date('' @ [squote] @ ''2020-01-02'' @ [squote] @ '');'')
      \<lparr>execute_query = []\<rparr>) \<and>
   \<not> illegal_query (SqlQuery_init (''select #date('' @ [squote] @ ''2020-01-02'' @ [squote] @ '');'')
      \<lparr>execute_query = []\<rparr>) \<and>
   \<not> bad_macro (SqlQuery_init (''select #date('' @ [squote] @ ''2020-01-02'' @ [squote] @ '');'')
      \<lparr>execute_query = []\<rparr>) \<and>
   view_type (SqlQuery_init (''select #date('' @ [squote] @ ''2020-01-02'' @ [squote] @ '');'')
      \<lparr>execute_query = []\<rparr>) = HORIZONTAL_TABLE \<and>
   query_statement (SqlQuery_init (''select #date('' @ [squote] @ ''2020-01-02'' @ [squote] @ '');'')
      \<lparr>execute_query = []\<rparr>) @ '';'' =
     query_statement (rewritten (''select #date('' @ [squote] @ ''2020-01-02'' @ [squote] @ '');'')
      \<lparr>execute_query = []\<rparr>)"
proof -
  let ?s = "''select #date('' @ [squote] @ ''2020-01-02'' @ [squote] @ '');''"
  let ?o = "\<lparr>execute_query = []\<rparr>"
  have h: "\<not> cancelled (SqlQuery_init ?s ?o) \<and> \<not> illegal_query (SqlQuery_init ?s ?o) \<and>
      \<not> bad_macro (SqlQuery_init ?s ?o)"
    by code_simp
  have e: "execute_query ?o = [] \<and> \<not> ends_vertical ?s \<and> endswith ?s '';''"
    by code_simp
  from h e classify_terminator_step [of ?s ?o] show ?thesis by blast
qed

text \<open>
  C7, as the code has it. For a statement marked illegal the macro loop still
  runs (a macro error is recorded as for any statement), and so does the last
  step of \<open>parse_query\<close>: the terminator is removed and the view is set from it,
  as for a legal statement.
\<close>

theorem illegal_still_stripped:
  "illegal_query (SqlQuery_init stmt options) \<longrightarrow>
     bad_macro (SqlQuery_init stmt options) = bad_macro (rewritten stmt options) \<and>
     bad_macro_string (SqlQuery_init stmt options) = bad_macro_string (rewritten stmt options) \<and>
     (execute_query options \<noteq> [] \<longrightarrow>
        view_type (SqlQuery_init stmt options) = HORIZONTAL_TABS \<and>
        (if endswith stmt '';''
         then query_statement (SqlQuery_init stmt options) @ '';'' =
              query_statement (rewritten stmt options)
         else query_statement (SqlQuery_init stmt options) =
              query_statement (rewritten stmt options))) \<and>
     (execute_query options = [] \<and> ends_vertical stmt \<longrightarrow>
        view_type (SqlQuery_init stmt options) = VERTICAL \<and>
        (query_statement (SqlQuery_init stmt options) @ [bslash, CHR ''g''] =
           query_statement (rewritten stmt options) \<or>
         query_statement (SqlQuery_init stmt options) @ [bslash, CHR ''G''] =
           query_statement (rewritten stmt options))) \<and>
     (execute_query options = [] \<and> \<not> ends_vertical stmt \<and> endswith stmt '';'' \<longrightarrow>
        view_type (SqlQuery_init stmt options) = HORIZONTAL_TABLE \<and>
        query_statement (SqlQuery_init stmt options) @ '';'' =
          query_statement (rewritten stmt options)) \<and>
     (execute_query options = [] \<and> \<not> ends_vertical stmt \<and> \<not> endswith stmt '';'' \<longrightarrow>
        view_type (SqlQuery_init stmt options) = HORIZONTAL_TABLE \<and>
        query_statement (SqlQuery_init stmt options) =
          query_statement (rewritten stmt options))"
proof
  assume ill: "illegal_query (SqlQuery_init stmt options)"
  have nc: "\<not> ends_cancel stmt"
  proof
    assume "ends_cancel stmt"
    then have "\<not> illegal_query (SqlQuery_init stmt options)"
      by (simp add: SqlQuery_init_cancelled SqlQuery_defaults_def)
    with ill show False by contradiction
  qed
  from SqlQuery_init_bad_macro [OF nc, of options] terminator_step_general [OF nc, of options]
  show "bad_macro (SqlQuery_init stmt options) = bad_macro (rewritten stmt options) \<and>
     bad_macro_string (SqlQuery_init stmt options) = bad_macro_string (rewritten stmt options) \<and>
     (execute_query options \<noteq> [] \<longrightarrow>
        view_type (SqlQuery_init stmt options) = HORIZONTAL_TABS \<and>
        (if endswith stmt '';''
         then query_statement (SqlQuery_init stmt options) @ '';'' =
              query_statement (rewritten stmt options)
         else query_statement (SqlQuery_init stmt options) =
              query_statement (rewritten stmt options))) \<and>
     (execute_query options = [] \<and> ends_vertical stmt \<longrightarrow>
        view_type (SqlQuery_init stmt options) = VERTICAL \<and>
        (query_statement (SqlQuery_init stmt options) @ [bslash, CHR ''g''] =
           query_statement (rewritten stmt options) \<or>
         query_statement (SqlQuery_init stmt options) @ [bslash, CHR ''G''] =
           query_statement (rewritten stmt options))) \<and>
     (execute_query options = [] \<and> \<not> ends_vertical stmt \<and> endswith stmt '';'' \<longrightarrow>
        view_type (SqlQuery_init stmt options) = HORIZONTAL_TABLE \<and>
        query_statement (SqlQuery_init stmt options) @ '';'' =
          query_statement (rewritten stmt options)) \<and>
     (execute_query options = [] \<and> \<not> ends_vertical stmt \<and> \<not> endswith stmt '';'' \<longrightarrow>
        view_type (SqlQuery_init stmt options) = HORIZONTAL_TABLE \<and>
        query_statement (SqlQuery_init stmt options) =
          query_statement (rewritten stmt options))"
    by blast
qed

theorem illegal_still_stripped_witness:
  "illegal_query (SqlQuery_init (''drop x'' @ [bslash, CHR ''g'']) \<lparr>execute_query = []\<rparr>) \<and>
   view_type (SqlQuery_init (''drop x'' @ [bslash, CHR ''g'']) \<lparr>execute_query = []\<rparr>) = VERTICAL"
proof -
  let ?s = "''drop x'' @ [bslash, CHR ''g'']"
  let ?o = "\<lparr>execute_query = []\<rparr>"
  have h: "illegal_query (SqlQuery_init ?s ?o)" by code_simp
  have e: "execute_query ?o = [] \<and> ends_vertical ?s" by code_simp
  from h e illegal_still_stripped [of ?s ?o] show ?thesis by blast
qed

text \<open>
  The illegal statement \<open>drop x\g\<close> loses its terminator and gets the vertical
  view, not the default one.
\<close>

theorem illegal_keeps_terminator_counterexample:
  "illegal_query (SqlQuery_init (''drop x'' @ [bslash, CHR ''g'']) \<lparr>execute_query = []\<rparr>) \<and>
   query_statement (SqlQuery_init (''drop x'' @ [bslash, CHR ''g'']) \<lparr>execute_query = []\<rparr>) =
     ''drop x'' \<and>
   view_type (SqlQuery_init (''drop x'' @ [bslash, CHR ''g'']) \<lparr>execute_query = []\<rparr>) = VERTICAL \<and>
   view_type (SqlQuery_defaults (''drop x'' @ [bslash, CHR ''g'']) \<lparr>execute_query = []\<rparr>) =
     HORIZONTAL_TABLE"
  by code_simp

section \<open>The macro loop: failure and termination\<close>

lemma str_find_range: "str_find s t = -1 \<or> 0 \<le> str_find s t"
  by (induction s) (auto simp: Let_def)

lemma count_matches_substitution_le:
  "count_matches (query_statement (date_macro_substitution q)) \<le> count_matches (query_statement q)"
proof (induction q rule: date_macro_substitution_induct)
  case (none q)
  then show ?case by (simp add: date_macro_substitution_none)
next
  case (bad q st en g)
  then show ?case by (simp add: date_macro_substitution_bad)
next
  case (good q st en g)
  from count_matches_decreases [OF good(1,2)] good(3) show ?case
    using good(1,2) by (simp add: date_macro_substitution_good [of q])
qed

lemma date_macro_passes_enough:
  "count_matches (query_statement q) \<le> n \<Longrightarrow>
     date_macro_passes n q = Some (date_macro_substitution q)"
proof (induction q arbitrary: n rule: date_macro_substitution_induct)
  case (none q)
  then show ?case
    by (simp add: date_macro_substitution_none date_macro_passes.simps [of n q])
next
  case (bad q st en g)
  then show ?case
    by (simp add: date_macro_substitution_bad date_macro_passes.simps [of n q])
next
  case (good q st en g)
  let ?q' = "q\<lparr>query_statement :=
      take st (query_statement q) @ get_actual_date g @ drop en (query_statement q)\<rparr>"
  from count_matches_decreases [OF good(1,2)] good(4)
  obtain m where m: "n = Suc m" "count_matches (query_statement ?q') \<le> m"
    by (cases n) auto
  from good(3) [OF m(2)] have "date_macro_passes m ?q' = Some (date_macro_substitution ?q')" .
  moreover have "date_macro_passes (Suc m) q = date_macro_passes m ?q'"
    using good(1,2) by (subst date_macro_passes.simps) simp
  ultimately show ?case
    using good(1,2) m(1) by (simp add: date_macro_substitution_good [of q])
qed

lemma date_macro_substitution_final:
  "bad_macro (date_macro_substitution q) \<or>
   date_macro_search (query_statement (date_macro_substitution q)) = None"
proof (induction q rule: date_macro_substitution_induct)
  case (none q)
  then show ?case by (simp add: date_macro_substitution_none)
next
  case (bad q st en g)
  then show ?case by (simp add: date_macro_substitution_bad)
next
  case (good q st en g)
  then show ?case by (simp add: date_macro_substitution_good [of q])
qed

lemma to_date_no_macro:
  assumes "get_actual_date g \<noteq> []"
  shows "str_find (get_actual_date g) macro_open = -1"
proof (rule ccontr)
  assume "str_find (get_actual_date g) macro_open \<noteq> - 1"
  with str_find_range [of "get_actual_date g" macro_open]
  obtain i where "str_find (get_actual_date g) macro_open = int i"
    by (metis nonneg_int_cases)
  then have "occurs_at (get_actual_date g) macro_open i" by (rule str_find_sound)
  from occurs_at_nth [OF this, of 0]
  have "get_actual_date g ! i = CHR ''#''" "i < length (get_actual_date g)"
    by (simp_all add: macro_open_def)
  then have "CHR ''#'' \<in> set (get_actual_date g)" by (metis nth_mem)
  with get_actual_date_shape(2) [OF assms] show False by contradiction
qed

text \<open>
  C10. The loop of \<open>date_macro_substitution\<close> returns: run with a bound of at
  least the number of macro matches of the statement, it gives the result of
  \<open>date_macro_substitution\<close>, and that result has a macro error or no macro match
  left. A pass that does not return replaces the leftmost match by a \<open>to_date\<close>
  call in which \<open>#date('\<close> does not occur, and the number of macro matches gets
  smaller.
\<close>

theorem date_macro_loop_terminates:
  "(\<forall>n\<ge>count_matches (query_statement q).
      date_macro_passes n q = Some (date_macro_substitution q)) \<and>
   (bad_macro (date_macro_substitution q) \<or>
    date_macro_search (query_statement (date_macro_substitution q)) = None) \<and>
   (date_macro_search s = Some (st, en, g) \<and> get_actual_date g \<noteq> [] \<longrightarrow>
      str_find (get_actual_date g) macro_open = -1 \<and>
      count_matches (take st s @ get_actual_date g @ drop en s) < count_matches s)"
  using date_macro_passes_enough [of q] date_macro_substitution_final [of q]
    to_date_no_macro [of g] count_matches_decreases [of s st en g]
  by blast


theorem date_macro_loop_terminates_witness:
  "date_macro_passes 1 (SqlQuery_defaults (''a #date('' @ [squote] @ ''2020-01-02'' @ [squote] @ '') b'')
      \<lparr>execute_query = []\<rparr>) =
     Some (date_macro_substitution
       (SqlQuery_defaults (''a #date('' @ [squote] @ ''2020-01-02'' @ [squote] @ '') b'')
          \<lparr>execute_query = []\<rparr>)) \<and>
   date_macro_search (''a #date('' @ [squote] @ ''2020-01-02'' @ [squote] @ '') b'') =
     Some (2, 21, ''2020-01-02'') \<and>
   str_find (get_actual_date ''2020-01-02'') macro_open = -1 \<and>
   count_matches (take 2 (''a #date('' @ [squote] @ ''2020-01-02'' @ [squote] @ '') b'') @
       get_actual_date ''2020-01-02'' @
       drop 21 (''a #date('' @ [squote] @ ''2020-01-02'' @ [squote] @ '') b'')) <
     count_matches (''a #date('' @ [squote] @ ''2020-01-02'' @ [squote] @ '') b'')"
proof -
  let ?s = "''a #date('' @ [squote] @ ''2020-01-02'' @ [squote] @ '') b''"
  let ?q = "SqlQuery_defaults ?s \<lparr>execute_query = []\<rparr>"
  have c: "count_matches (query_statement ?q) \<le> 1" by code_simp
  have m: "date_macro_search ?s = Some (2, 21, ''2020-01-02'') \<and>
      get_actual_date ''2020-01-02'' \<noteq> []" by code_simp
  from c m date_macro_loop_terminates [of ?q ?s 2 21 "''2020-01-02''"]
  show ?thesis by blast
qed

lemma bad_macro_reported:
  "\<not> bad_macro q \<Longrightarrow> bad_macro (date_macro_substitution q) \<Longrightarrow>
     (\<exists>st en. date_macro_search (query_statement (date_macro_substitution q)) =
        Some (st, en, bad_macro_string (date_macro_substitution q))) \<and>
     get_actual_date (bad_macro_string (date_macro_substitution q)) = []"
proof (induction q rule: date_macro_substitution_induct)
  case (none q)
  then show ?case by (simp add: date_macro_substitution_none)
next
  case (bad q st en g)
  then show ?case by (simp add: date_macro_substitution_bad)
next
  case (good q st en g)
  then show ?case by (simp add: date_macro_substitution_good [of q])
qed

lemma bad_macro_text_unchanged_iff:
  assumes "\<not> bad_macro q" "bad_macro (date_macro_substitution q)"
  shows "query_statement (date_macro_substitution q) = query_statement q \<longleftrightarrow>
     (\<exists>st en g. date_macro_search (query_statement q) = Some (st, en, g) \<and>
        get_actual_date g = [])"
proof (cases "date_macro_search (query_statement q)")
  case None
  with assms show ?thesis by (simp add: date_macro_substitution_none)
next
  case (Some m)
  obtain st en g where "m = (st, en, g)" by (cases m)
  with Some have s: "date_macro_search (query_statement q) = Some (st, en, g)" by simp
  show ?thesis
  proof (cases "get_actual_date g = []")
    case True
    with s show ?thesis by (simp add: date_macro_substitution_bad)
  next
    case False
    let ?q' = "q\<lparr>query_statement :=
      take st (query_statement q) @ get_actual_date g @ drop en (query_statement q)\<rparr>"
    have "count_matches (query_statement (date_macro_substitution ?q')) \<le>
        count_matches (query_statement ?q')"
      by (rule count_matches_substitution_le)
    also have "\<dots> < count_matches (query_statement q)"
      using count_matches_decreases [OF s False] by simp
    finally have "query_statement (date_macro_substitution ?q') \<noteq> query_statement q"
      by auto
    with s False show ?thesis by (simp add: date_macro_substitution_good [of q])
  qed
qed

text \<open>
  C2, as the code has it. When the macro loop fails, it reports the literal that
  parses under neither format, and that macro is still the leftmost one of the
  text. The passes before the failing one stay: the text is the statement as
  given exactly when the failing macro is the leftmost macro of the statement.
\<close>

theorem macro_failure_reported:
  "bad_macro (rewritten stmt options) \<longrightarrow>
     (\<exists>st en. date_macro_search (query_statement (rewritten stmt options)) =
        Some (st, en, bad_macro_string (rewritten stmt options))) \<and>
     get_actual_date (bad_macro_string (rewritten stmt options)) = [] \<and>
     (query_statement (rewritten stmt options) = stmt \<longleftrightarrow>
        (\<exists>st en g. date_macro_search stmt = Some (st, en, g) \<and> get_actual_date g = []))"
proof
  let ?q = "SqlQuery_defaults stmt options"
  assume b: "bad_macro (rewritten stmt options)"
  have nb: "\<not> bad_macro ?q" by (simp add: SqlQuery_defaults_def)
  have t: "query_statement ?q = stmt" by (simp add: SqlQuery_defaults_def)
  from bad_macro_reported [OF nb] bad_macro_text_unchanged_iff [OF nb] b t
  show "(\<exists>st en. date_macro_search (query_statement (rewritten stmt options)) =
        Some (st, en, bad_macro_string (rewritten stmt options))) \<and>
     get_actual_date (bad_macro_string (rewritten stmt options)) = [] \<and>
     (query_statement (rewritten stmt options) = stmt \<longleftrightarrow>
        (\<exists>st en g. date_macro_search stmt = Some (st, en, g) \<and> get_actual_date g = []))"
    unfolding rewritten_def by simp
qed

theorem macro_failure_reported_witness:
  "bad_macro (rewritten (''#date('' @ [squote] @ ''not-a-date'' @ [squote] @ '')'')
      \<lparr>execute_query = []\<rparr>) \<and>
   get_actual_date (bad_macro_string
      (rewritten (''#date('' @ [squote] @ ''not-a-date'' @ [squote] @ '')'')
         \<lparr>execute_query = []\<rparr>)) = [] \<and>
   query_statement (rewritten (''#date('' @ [squote] @ ''not-a-date'' @ [squote] @ '')'')
      \<lparr>execute_query = []\<rparr>) = ''#date('' @ [squote] @ ''not-a-date'' @ [squote] @ '')''"
proof -
  let ?s = "''#date('' @ [squote] @ ''not-a-date'' @ [squote] @ '')''"
  have b: "bad_macro (rewritten ?s \<lparr>execute_query = []\<rparr>)" by code_simp
  have f: "date_macro_search ?s = Some (0, 19, ''not-a-date'') \<and> get_actual_date ''not-a-date'' = []"
    by code_simp
  from b f macro_failure_reported [of ?s "\<lparr>execute_query = []\<rparr>"] show ?thesis by blast
qed

text \<open>
  A statement with a good macro before a bad one: the loop fails, reports the
  bad literal, and leaves the text with the first macro replaced.
\<close>

theorem macro_failure_counterexample:
  "bad_macro (rewritten
      (''#date('' @ [squote] @ ''2020-01-02'' @ [squote] @ '') #date('' @ [squote] @ ''x'' @ [squote] @ '')'')
      \<lparr>execute_query = []\<rparr>) \<and>
   bad_macro_string (rewritten
      (''#date('' @ [squote] @ ''2020-01-02'' @ [squote] @ '') #date('' @ [squote] @ ''x'' @ [squote] @ '')'')
      \<lparr>execute_query = []\<rparr>) = ''x'' \<and>
   query_statement (rewritten
      (''#date('' @ [squote] @ ''2020-01-02'' @ [squote] @ '') #date('' @ [squote] @ ''x'' @ [squote] @ '')'')
      \<lparr>execute_query = []\<rparr>) =
     to_date_call ''2020-01-02 00:00:00'' @ '' #date('' @ [squote] @ ''x'' @ [squote] @ '')'' \<and>
   query_statement (rewritten
      (''#date('' @ [squote] @ ''2020-01-02'' @ [squote] @ '') #date('' @ [squote] @ ''x'' @ [squote] @ '')'')
      \<lparr>execute_query = []\<rparr>) \<noteq>
     ''#date('' @ [squote] @ ''2020-01-02'' @ [squote] @ '') #date('' @ [squote] @ ''x'' @ [squote] @ '')''"
  by code_simp

section \<open>The summary line of the bordered table\<close>

lemma left_justify_row_ok:
  "i + length row \<le> length lj \<Longrightarrow>
     \<exists>lj'. left_justify_row i row lj = Inr lj' \<and> length lj' = length lj"
proof (induction row arbitrary: i lj)
  case Nil
  then show ?case by simp
next
  case (Cons col row)
  then have i: "i < length lj" by simp
  from Cons.prems have "Suc i + length row \<le> length lj" by simp
  from Cons.IH [OF this] Cons.IH [of "Suc i" "lj[i := True]"] this i
  show ?case by auto
qed

lemma left_justify_rows_ok:
  "\<forall>row\<in>set rows. length row \<le> length lj \<Longrightarrow>
     \<exists>lj'. left_justify_rows rows lj = Inr lj' \<and> length lj' = length lj"
proof (induction rows arbitrary: lj)
  case Nil
  then show ?case by simp
next
  case (Cons row rows)
  then have "0 + length row \<le> length lj" by simp
  from left_justify_row_ok [OF this] obtain lj' where
    lj': "left_justify_row 0 row lj = Inr lj'" "length lj' = length lj" by blast
  with Cons.prems have "\<forall>row\<in>set rows. length row \<le> length lj'" by simp
  from Cons.IH [OF this] lj' show ?case by auto
qed

lemma col_width_row_ok:
  "j + length row \<le> length cw \<Longrightarrow>
     \<exists>cw'. col_width_row j row cw = Inr cw' \<and> length cw' = length cw"
proof (induction row arbitrary: j cw)
  case Nil
  then show ?case by simp
next
  case (Cons col row)
  then have j: "j < length cw" by simp
  from Cons.prems have "Suc j + length row \<le> length cw" by simp
  from Cons.IH [OF this] Cons.IH [of "Suc j" "cw[j := length col]"] this j
  show ?case by auto
qed

lemma col_width_rows_ok:
  "\<forall>row\<in>set rows. length row \<le> length cw \<Longrightarrow>
     \<exists>cw'. col_width_rows rows cw = Inr cw' \<and> length cw' = length cw"
proof (induction rows arbitrary: cw)
  case Nil
  then show ?case by simp
next
  case (Cons row rows)
  then have "0 + length row \<le> length cw" by simp
  from col_width_row_ok [OF this] obtain cw' where
    cw': "col_width_row 0 row cw = Inr cw'" "length cw' = length cw" by blast
  with Cons.prems have "\<forall>row\<in>set rows. length row \<le> length cw'" by simp
  from Cons.IH [OF this] cw' show ?case by auto
qed

lemma format_rows_ok:
  "\<forall>row\<in>set rows. length row = length fmt \<Longrightarrow>
     \<exists>st. format_rows fmt cw (enumerate k rows) (out, r) = Inr st"
proof (induction rows arbitrary: k out r)
  case Nil
  then show ?case by simp
next
  case (Cons row rows)
  then show ?case by (simp add: format_row_def)
qed

lemma format_rows_row_num:
  "format_rows fmt cw (enumerate k rows) (out, r) = Inr (out', r') \<Longrightarrow> rows \<noteq> [] \<Longrightarrow>
     r' = k + length rows - 1"
proof (induction rows arbitrary: k out r)
  case Nil
  then show ?case by simp
next
  case (Cons row rows)
  from Cons.prems(1) obtain line where
    line: "format_row fmt row = Inr line"
    and rest: "format_rows fmt cw (enumerate (Suc k) rows)
      (if k = 0 then print_header_footer (out @ line) cw else out @ line, k) = Inr (out', r')"
    by (auto split: sum.splits)
  show ?case
  proof (cases "rows = []")
    case True
    with rest show ?thesis by simp
  next
    case False
    from Cons.IH [OF rest False] show ?thesis by simp
  qed
qed


lemma format_results_unfold:
  assumes "results \<noteq> []"
  shows "format_results out0 results header =
    (case get_left_justification results of
       Inl e \<Rightarrow> Inl e
     | Inr lj \<Rightarrow>
        (case get_col_width
                (map (map str_cell) ([map StrCell header] @ translate_none_to_null results)) of
           Inl e \<Rightarrow> Inl e
         | Inr cw \<Rightarrow>
            (case format_rows (create_format_string cw lj) cw
                    (enumerate 0
                      (map (map str_cell)
                        ([map StrCell header] @ translate_none_to_null results)))
                    (print_header_footer out0 cw, 0) of
               Inl e \<Rightarrow> Inl e
             | Inr (output2, row_num) \<Rightarrow>
                 Inr (print_result_set_summary (print_header_footer output2 cw) row_num))))"
  unfolding format_results_def want_header_def Let_def if_True if_not_P [OF assms] ..

lemma format_results_summary:
  assumes "results \<noteq> []" "format_results out0 results header = Inr out"
  shows "\<exists>body. out = body @ str_nat (length results) @ '' rows in set'' @ [newline, newline]"
proof -
  define srs where
    "srs = map (map str_cell) ([map StrCell header] @ translate_none_to_null results)"
  have len: "length srs = Suc (length results)" "srs \<noteq> []"
    by (simp_all add: srs_def translate_none_to_null_def)
  from assms(2) obtain lj cw output2 row_num where
    rows: "format_rows (create_format_string cw lj) cw (enumerate 0 srs)
        (print_header_footer out0 cw, 0) = Inr (output2, row_num)"
    and out: "out = print_result_set_summary (print_header_footer output2 cw) row_num"
    unfolding format_results_unfold [OF assms(1)] srs_def [symmetric]
    by (auto split: sum.splits)
  have "row_num = 0 + length srs - 1"
    using rows len(2) by (rule format_rows_row_num)
  then have n: "row_num = length results" by (simp add: len)
  with out assms(1) have "out = print_header_footer output2 cw @
      str_nat (length results) @ '' rows in set'' @ [newline, newline]"
    by (simp add: print_result_set_summary_def get_result_set_summary_def)
  then show ?thesis by blast
qed

lemma format_results_ok:
  assumes ne: "results \<noteq> []" and wf: "\<forall>row\<in>set results. length row = length header"
  shows "\<exists>out. format_results out0 results header = Inr out"
proof -
  let ?n = "length header"
  define srs where
    "srs = map (map str_cell) ([map StrCell header] @ translate_none_to_null results)"
  from ne obtain first others where r: "results = first # others" by (cases results) auto
  with wf have first: "length first = ?n" by simp
  have "\<forall>row\<in>set results. length row \<le> length (replicate ?n False)" using wf by simp
  from left_justify_rows_ok [OF this] obtain lj where
    lj: "left_justify_rows results (replicate ?n False) = Inr lj" "length lj = ?n" by auto
  then have glj: "get_left_justification results = Inr lj"
    using r first by (simp add: get_left_justification_def)
  have srs_len: "\<forall>row\<in>set srs. length row = ?n"
    using wf by (auto simp: srs_def translate_none_to_null_def)
  then have "\<forall>row\<in>set srs. length row \<le> length (replicate ?n (0::nat))" by simp
  from col_width_rows_ok [OF this] obtain cw where
    cw: "col_width_rows srs (replicate ?n 0) = Inr cw" "length cw = ?n" by auto
  have "\<exists>hd_row rest. srs = hd_row # rest \<and> length hd_row = ?n"
    by (simp add: srs_def)
  with cw have gcw: "get_col_width srs = Inr cw"
    by (auto simp: get_col_width_def)
  have "length (create_format_string cw lj) = ?n"
    using lj(2) cw(2) by (simp add: create_format_string_def)
  with srs_len have "\<forall>row\<in>set srs. length row = length (create_format_string cw lj)" by simp
  from format_rows_ok [OF this] obtain st where
    "format_rows (create_format_string cw lj) cw (enumerate 0 srs)
       (print_header_footer out0 cw, 0) = Inr st" by blast
  with glj gcw show ?thesis
    unfolding format_results_unfold [OF ne] srs_def [symmetric]
    by (cases st) simp
qed

text \<open>
  C8. The bordered table of an empty result set is exactly the text
  \<open>Empty set\<close> and two line feeds. The bordered table of a result set that is
  not empty, whenever it is rendered, ends with the summary line of the number of
  data rows (the header row is not counted); and it is rendered whenever every
  row has as many cells as there are column names.
\<close>

theorem bordered_table_summary:
  "format_results [] [] header = Inr (''Empty set'' @ [newline, newline]) \<and>
   (results \<noteq> [] \<and> (\<forall>row\<in>set results. length row = length header) \<longrightarrow>
      (\<exists>body. format_results [] results header =
         Inr (body @ str_nat (length results) @ '' rows in set'' @ [newline, newline]))) \<and>
   (results \<noteq> [] \<and> format_results [] results header = Inr out \<longrightarrow>
      (\<exists>body. out = body @ str_nat (length results) @ '' rows in set'' @ [newline, newline]))"
proof (intro conjI impI)
  show "format_results [] [] header = Inr (''Empty set'' @ [newline, newline])"
    by (simp add: format_results_def print_result_set_summary_def get_result_set_summary_def)
next
  assume a: "results \<noteq> [] \<and> (\<forall>row\<in>set results. length row = length header)"
  then obtain out where out: "format_results [] results header = Inr out"
    using format_results_ok by blast
  with a format_results_summary [of results "[]" header out]
  show "\<exists>body. format_results [] results header =
         Inr (body @ str_nat (length results) @ '' rows in set'' @ [newline, newline])"
    by auto
next
  assume "results \<noteq> [] \<and> format_results [] results header = Inr out"
  then show "\<exists>body. out = body @ str_nat (length results) @ '' rows in set'' @ [newline, newline]"
    using format_results_summary by blast
qed

theorem bordered_table_summary_witness:
  "format_results [] [[StrCell ''x'', OtherCell ''12''], [NoneCell, OtherCell ''3'']] [''A'', ''B''] =
     Inr (''+------+----+'' @ [newline] @ ''| A    |  B |'' @ [newline] @
          ''+------+----+'' @ [newline] @ ''| x    | 12 |'' @ [newline] @
          ''| NULL |  3 |'' @ [newline] @ ''+------+----+'' @ [newline] @
          ''2 rows in set'' @ [newline, newline]) \<and>
   (\<exists>body. format_results [] [[StrCell ''x'', OtherCell ''12''], [NoneCell, OtherCell ''3'']]
        [''A'', ''B''] =
      Inr (body @ str_nat (length [[StrCell ''x'', OtherCell ''12''], [NoneCell, OtherCell ''3'']]) @
           '' rows in set'' @ [newline, newline]))"
proof -
  let ?rs = "[[StrCell ''x'', OtherCell ''12''], [NoneCell, OtherCell ''3'']]"
  let ?h = "[''A'', ''B'']"
  have a: "?rs \<noteq> [] \<and> (\<forall>row\<in>set ?rs. length row = length ?h)" by simp
  have b: "format_results [] ?rs ?h =
     Inr (''+------+----+'' @ [newline] @ ''| A    |  B |'' @ [newline] @
          ''+------+----+'' @ [newline] @ ''| x    | 12 |'' @ [newline] @
          ''| NULL |  3 |'' @ [newline] @ ''+------+----+'' @ [newline] @
          ''2 rows in set'' @ [newline, newline])"
    by code_simp
  from a b bordered_table_summary [of ?h ?rs] show ?thesis by blast
qed

section \<open>The buffer when a line is requested\<close>

text \<open>
  What \<open>clean_buffer\<close> leaves: nothing, or a text that ends with one space after
  a character that is not white space.
\<close>

lemma clean_buffer_shape:
  "clean_buffer buf = [] \<or>
   (\<exists>body. clean_buffer buf = body @ '' '' \<and> body \<noteq> [] \<and> \<not> is_space (last body))"
proof (cases "strip buf = []")
  case True
  then show ?thesis by (simp add: clean_buffer_def)
next
  case False
  then have "dropWhile is_space (rev buf) \<noteq> []"
    by (auto simp: strip_def rstrip_def lstrip_def dropWhile_eq_Nil_conv dest: set_dropWhileD)
  then have ne: "rstrip buf \<noteq> []" by (simp add: rstrip_def)
  have "\<not> is_space (hd (dropWhile is_space (rev buf)))"
    using \<open>dropWhile is_space (rev buf) \<noteq> []\<close> by (rule hd_dropWhile)
  then have "\<not> is_space (last (rstrip buf))"
    using \<open>dropWhile is_space (rev buf) \<noteq> []\<close> by (simp add: rstrip_def last_rev)
  with False ne show ?thesis by (simp add: clean_buffer_def)
qed

text \<open>
  C4 fails on the code. \<open>get_query\<close> calls \<open>clean_buffer\<close> only when the line it
  has read completes no statement. When the line completes a statement and goes
  on, the rest stays in the buffer as it is: after the line
  \<open>select 1; select 2\<close> the next line is requested with the buffer \<open>select 2\<close>,
  which has no space at its end, and the next line is glued to it. The same text
  typed as a line of its own gets its space.
\<close>

theorem get_query_leaves_buffer_without_space:
  "returned (get_query statement_terminators [] [''select 1; select 2'', ''from dual;'']) =
     Statement ''select 1;'' \<and>
   buffer_after (get_query statement_terminators [] [''select 1; select 2'', ''from dual;'']) =
     ''select 2'' \<and>
   line_request (get_query statement_terminators ''select 2'' [''from dual;'']) =
     Some ''select 2'' \<and>
   returned (get_query statement_terminators ''select 2'' [''from dual;'']) =
     Statement ''select 2from dual;'' \<and>
   returned (get_query statement_terminators [] [''select 2'', ''from dual;'']) = NoStatement \<and>
   buffer_after (get_query statement_terminators [] [''select 2'', ''from dual;'']) =
     ''select 2 ''"
  by code_simp

end
